theory Spec2Isabelle
  imports Main "HOL-Library.AList"
begin

section \<open>The document tree the module works on\<close>

text \<open>
  The module has no data of its own: everything it reads and writes is the live document.
  The model keeps the shape of the document (who is whose child, in which order) apart
  from the data of each node (tag, attributes, inline style, listeners, text), the second
  indexed by node identity. A node that was removed from the document stays alive as the
  root of a detached tree, as it does for a script that still holds a reference to it
  (the static lists of \<open>querySelectorAll\<close> do).

  Conventions of the model:
  \<^item> URLs are taken as absolute, so the \<open>src\<close> property reads the \<open>src\<close> attribute
    (the empty string when it is absent);
  \<^item> the text directly inside an element is kept in the element (\<open>textData\<close>), before
    its child elements;
  \<^item> the root of \<open>document\<close> is the Document node (tag \<open>#document\<close>), which is not
    an element: \<open>parentElement\<close> of its child is \<open>null\<close>.
\<close>

type_synonym ident = nat

record elem =
  tagName :: string
  attrs :: "(string \<times> string) list"
  style :: "(string \<times> string) list"
  listeners :: "string list"
  textData :: string

datatype tree = Tree (root: ident) (subs: "tree list")

datatype observer = NoopObserver | BlockingObserver "string list"

record dom =
  document :: tree
  detached :: "tree list"
  store :: "ident \<Rightarrow> elem"
  nextId :: ident
  blockingEnabled :: bool
  observers :: "observer list"
  draws :: nat

datatype error = NoParentError | DOMException

subsection \<open>Strings\<close>

text \<open>\<open>s.includes(k)\<close>: \<open>k\<close> occurs in \<open>s\<close> as a contiguous substring.\<close>

fun str_includes :: "string \<Rightarrow> string \<Rightarrow> bool" where
  "str_includes [] k = (k = [])"
| "str_includes (c # cs) k = (take (length k) (c # cs) = k \<or> str_includes cs k)"

text \<open>\<open>keywords.some((keyword) => s.includes(keyword))\<close>\<close>

definition someIncludes :: "string list \<Rightarrow> string \<Rightarrow> bool" where
  "someIncludes keywords s = list_ex (str_includes s) keywords"

subsection \<open>Trees\<close>

fun nodes :: "tree \<Rightarrow> ident list" where
  "nodes (Tree r ts) = r # concat (map nodes ts)"

fun edges :: "tree \<Rightarrow> (ident \<times> ident) list" where
  "edges (Tree r ts) = map (\<lambda>t. (root t, r)) ts @ concat (map edges ts)"

fun subtrees :: "tree \<Rightarrow> tree list" where
  "subtrees (Tree r ts) = Tree r ts # concat (map subtrees ts)"

fun map_kids :: "ident \<Rightarrow> (tree list \<Rightarrow> tree list) \<Rightarrow> tree \<Rightarrow> tree" where
  "map_kids p f (Tree r ts) =
     Tree r ((if r = p then f else id) (map (map_kids p f) ts))"

fun ins_before :: "tree \<Rightarrow> ident \<Rightarrow> tree list \<Rightarrow> tree list" where
  "ins_before t ref [] = []"
| "ins_before t ref (k # ks) =
     (if root k = ref then t # k # ks else k # ins_before t ref ks)"

definition forest :: "dom \<Rightarrow> tree list" where
  "forest s = document s # detached s"

definition updTrees :: "(tree \<Rightarrow> tree) \<Rightarrow> dom \<Rightarrow> dom" where
  "updTrees f s = s\<lparr>document := f (document s), detached := map f (detached s)\<rparr>"

definition parentNode :: "dom \<Rightarrow> ident \<Rightarrow> ident option" where
  "parentNode s i = map_of (concat (map edges (forest s))) i"

definition parentElement :: "dom \<Rightarrow> ident \<Rightarrow> ident option" where
  "parentElement s i =
     (case parentNode s i of
        None \<Rightarrow> None
      | Some p \<Rightarrow> if tagName (store s p) = ''#document'' then None else Some p)"

definition subtreeOf :: "dom \<Rightarrow> ident \<Rightarrow> tree option" where
  "subtreeOf s i = find (\<lambda>t. root t = i) (concat (map subtrees (forest s)))"

text \<open>The elements below a node, in document order (the node itself excluded).\<close>

definition descendants :: "dom \<Rightarrow> ident \<Rightarrow> ident list" where
  "descendants s i = (case subtreeOf s i of None \<Rightarrow> [] | Some t \<Rightarrow> tl (nodes t))"

text \<open>The elements of the document, in document order (the Document node excluded).\<close>

definition docElements :: "dom \<Rightarrow> ident list" where
  "docElements s = tl (nodes (document s))"

subsection \<open>The DOM operations the module calls\<close>

text \<open>
  \<open>unlink\<close> takes a node out of its parent's child list (or out of the detached roots).
  The tree operations below are the platform's: \<open>appendChild\<close>, \<open>insertBefore\<close> and
  \<open>replaceChild\<close> first take the inserted node out of where it is. The module calls
  \<open>appendChild\<close> and \<open>insertBefore\<close> only with a reference child that is a child of
  the parent and with an inserted node that does not contain the parent, so the
  platform's errors for the other cases are not part of their model.
\<close>

definition unlink :: "ident \<Rightarrow> dom \<Rightarrow> dom" where
  "unlink c s =
     (case parentNode s c of
        Some p \<Rightarrow> updTrees (map_kids p (filter (\<lambda>t. root t \<noteq> c))) s
      | None \<Rightarrow> s\<lparr>detached := filter (\<lambda>t. root t \<noteq> c) (detached s)\<rparr>)"

definition appendChild :: "ident \<Rightarrow> ident \<Rightarrow> dom \<Rightarrow> dom" where
  "appendChild p c s =
     (case subtreeOf s c of
        None \<Rightarrow> s
      | Some t \<Rightarrow> updTrees (map_kids p (\<lambda>ks. ks @ [t])) (unlink c s))"

definition insertBefore :: "ident \<Rightarrow> ident \<Rightarrow> ident \<Rightarrow> dom \<Rightarrow> dom" where
  "insertBefore p new ref s =
     (case subtreeOf s new of
        None \<Rightarrow> s
      | Some t \<Rightarrow> updTrees (map_kids p (ins_before t ref)) (unlink new s))"

text \<open>
  \<open>parent.replaceChild(new, old)\<close> is the one tree operation the module guards with
  \<open>try\<close>/\<open>catch\<close>, so its failures are modelled: the platform raises, before it
  changes anything, when \<open>old\<close> is not a child of \<open>parent\<close> or when \<open>new\<close> contains
  \<open>parent\<close>.
\<close>

definition replaceChild :: "ident \<Rightarrow> ident \<Rightarrow> ident \<Rightarrow> dom \<Rightarrow> (error + unit) \<times> dom" where
  "replaceChild p new old s =
     (case subtreeOf s new of
        None \<Rightarrow> (Inl DOMException, s)
      | Some t \<Rightarrow>
          if parentNode s old \<noteq> Some p \<or> p \<in> set (nodes t) then (Inl DOMException, s)
          else
            let s1 = unlink new s in
            (case subtreeOf s1 old of
               None \<Rightarrow> (Inl DOMException, s)
             | Some ot \<Rightarrow>
                 let s2 = updTrees (map_kids p (map (\<lambda>k. if root k = old then t else k))) s1
                 in (Inr (), s2\<lparr>detached := detached s2 @ [ot]\<rparr>)))"

text \<open>\<open>node.remove()\<close>: nothing happens to a node without a parent.\<close>

definition removeNode :: "ident \<Rightarrow> dom \<Rightarrow> dom" where
  "removeNode c s =
     (case parentNode s c of
        None \<Rightarrow> s
      | Some p \<Rightarrow>
          (case subtreeOf s c of
             None \<Rightarrow> s
           | Some t \<Rightarrow> let s1 = unlink c s in s1\<lparr>detached := detached s1 @ [t]\<rparr>))"

definition newElem :: "string \<Rightarrow> elem" where
  "newElem tg = \<lparr>tagName = tg, attrs = [], style = [], listeners = [], textData = []\<rparr>"

definition createElement :: "string \<Rightarrow> dom \<Rightarrow> ident \<times> dom" where
  "createElement tg s =
     (nextId s,
      s\<lparr>detached := detached s @ [Tree (nextId s) []],
        store := (store s)(nextId s := newElem tg),
        nextId := Suc (nextId s)\<rparr>)"

definition modify :: "ident \<Rightarrow> (elem \<Rightarrow> elem) \<Rightarrow> dom \<Rightarrow> dom" where
  "modify i f s = s\<lparr>store := (store s)(i := f (store s i))\<rparr>"

definition getAttribute :: "string \<Rightarrow> elem \<Rightarrow> string option" where
  "getAttribute k e = map_of (attrs e) k"

definition hasAttribute :: "string \<Rightarrow> elem \<Rightarrow> bool" where
  "hasAttribute k e = (getAttribute k e \<noteq> None)"

definition setAttribute :: "string \<Rightarrow> string \<Rightarrow> elem \<Rightarrow> elem" where
  "setAttribute k v e = e\<lparr>attrs := AList.update k v (attrs e)\<rparr>"

definition removeAttribute :: "string \<Rightarrow> elem \<Rightarrow> elem" where
  "removeAttribute k e = e\<lparr>attrs := AList.delete k (attrs e)\<rparr>"

text \<open>\<open>el.style.p = v\<close>: assigning the empty string removes the declaration.\<close>

definition setStyle :: "string \<Rightarrow> string \<Rightarrow> elem \<Rightarrow> elem" where
  "setStyle p v e =
     e\<lparr>style := (if v = [] then AList.delete p (style e) else AList.update p v (style e))\<rparr>"

text \<open>\<open>el.style.p\<close>: the empty string when the declaration is absent.\<close>

definition getStyle :: "string \<Rightarrow> elem \<Rightarrow> string" where
  "getStyle p e = (case map_of (style e) p of None \<Rightarrow> [] | Some v \<Rightarrow> v)"

text \<open>The \<open>src\<close> property of an iframe or script.\<close>

definition srcProp :: "elem \<Rightarrow> string" where
  "srcProp e = (case getAttribute ''src'' e of None \<Rightarrow> [] | Some v \<Rightarrow> v)"

subsection \<open>Markup: \<open>innerHTML\<close>, selectors\<close>

text \<open>
  A parsed HTML fragment. Assigning to \<open>innerHTML\<close> detaches the old children, drops
  the text of the element and creates the nodes of the fragment, numbered in document
  order.
\<close>

datatype markup = Markup elem "markup list"

fun alloc :: "markup \<Rightarrow> ident \<Rightarrow> (ident \<Rightarrow> elem) \<Rightarrow> tree \<times> ident \<times> (ident \<Rightarrow> elem)"
  and allocs :: "markup list \<Rightarrow> ident \<Rightarrow> (ident \<Rightarrow> elem) \<Rightarrow> tree list \<times> ident \<times> (ident \<Rightarrow> elem)"
where
  "alloc (Markup e ms) n st =
     (case allocs ms (Suc n) (st(n := e)) of (ts, n', st') \<Rightarrow> (Tree n ts, n', st'))"
| "allocs [] n st = ([], n, st)"
| "allocs (m # ms) n st =
     (case alloc m n st of (t, n1, st1) \<Rightarrow>
        (case allocs ms n1 st1 of (ts, n2, st2) \<Rightarrow> (t # ts, n2, st2)))"

definition childTrees :: "dom \<Rightarrow> ident \<Rightarrow> tree list" where
  "childTrees s i = (case subtreeOf s i of None \<Rightarrow> [] | Some t \<Rightarrow> subs t)"

definition setInnerHTML :: "ident \<Rightarrow> markup list \<Rightarrow> dom \<Rightarrow> dom" where
  "setInnerHTML w frag s =
     (case allocs frag (nextId s) (store s) of
        (ts, n', st') \<Rightarrow>
          let s1 = updTrees (map_kids w (\<lambda>_. ts)) s
          in s1\<lparr>detached := detached s1 @ childTrees s w,
                store := st'(w := (st' w)\<lparr>textData := []\<rparr>), nextId := n'\<rparr>)"

text \<open>The \<open>innerHTML\<close> getter: the serialisation of what is inside the element.\<close>

definition lowerCase :: "string \<Rightarrow> string" where
  "lowerCase = map (\<lambda>c. case map_of (zip ''ABCDEFGHIJKLMNOPQRSTUVWXYZ''
                                          ''abcdefghijklmnopqrstuvwxyz'') c of
                         None \<Rightarrow> c | Some l \<Rightarrow> l)"

definition escapeText :: "string \<Rightarrow> string" where
  "escapeText = concat \<circ> map (\<lambda>c. if c = CHR ''&'' then ''&amp;''
                                  else if c = CHR ''<'' then ''&lt;''
                                  else if c = CHR ''>'' then ''&gt;'' else [c])"

definition escapeAttr :: "string \<Rightarrow> string" where
  "escapeAttr = concat \<circ> map (\<lambda>c. if c = CHR ''&'' then ''&amp;''
                                  else if c = CHR 0x22 then ''&quot;'' else [c])"

definition serializeAttr :: "string \<times> string \<Rightarrow> string" where
  "serializeAttr kv = '' '' @ fst kv @ ''='' @ [CHR 0x22] @ escapeAttr (snd kv) @ [CHR 0x22]"

definition styleText :: "(string \<times> string) list \<Rightarrow> string" where
  "styleText ds = concat (map (\<lambda>d. fst d @ '': '' @ snd d @ ''; '') ds)"

definition openTag :: "elem \<Rightarrow> string" where
  "openTag e =
     ''<'' @ lowerCase (tagName e) @ concat (map serializeAttr (attrs e))
     @ (if style e = [] then [] else serializeAttr (''style'', styleText (style e)))
     @ ''>''"

fun serialize :: "(ident \<Rightarrow> elem) \<Rightarrow> tree \<Rightarrow> string" where
  "serialize st (Tree r ts) =
     openTag (st r) @ escapeText (textData (st r)) @ concat (map (serialize st) ts)
     @ ''</'' @ lowerCase (tagName (st r)) @ ''>''"

definition innerHTML :: "dom \<Rightarrow> ident \<Rightarrow> string" where
  "innerHTML s i =
     escapeText (textData (store s i)) @ concat (map (serialize (store s)) (childTrees s i))"

fun splitSpaces :: "string \<Rightarrow> string \<Rightarrow> string list" where
  "splitSpaces acc [] = (if acc = [] then [] else [acc])"
| "splitSpaces acc (c # cs) =
     (if c = CHR '' '' then (if acc = [] then [] else [acc]) @ splitSpaces [] cs
      else splitSpaces (acc @ [c]) cs)"

definition hasClass :: "string \<Rightarrow> elem \<Rightarrow> bool" where
  "hasClass c e =
     (case getAttribute ''class'' e of None \<Rightarrow> False | Some v \<Rightarrow> c \<in> set (splitSpaces [] v))"

text \<open>\<open>document.querySelectorAll(sel)\<close> and \<open>el.querySelector(sel)\<close>, the selector given
  as a predicate on the element.\<close>

definition querySelectorAll :: "(elem \<Rightarrow> bool) \<Rightarrow> dom \<Rightarrow> ident list" where
  "querySelectorAll sel s = filter (\<lambda>i. sel (store s i)) (docElements s)"

definition querySelector :: "(elem \<Rightarrow> bool) \<Rightarrow> dom \<Rightarrow> ident \<Rightarrow> ident option" where
  "querySelector sel s w = find (\<lambda>i. sel (store s i)) (descendants s w)"

definition getElementById :: "dom \<Rightarrow> string \<Rightarrow> ident option" where
  "getElementById s x = find (\<lambda>i. getAttribute ''id'' (store s i) = Some x) (docElements s)"

definition isTag :: "string \<Rightarrow> elem \<Rightarrow> bool" where
  "isTag tg e = (tagName e = tg)"

text \<open>\<open>iframe[data-cookie-blocked="true"][data-original-src]\<close>\<close>

definition selBlockedIframe :: "elem \<Rightarrow> bool" where
  "selBlockedIframe e =
     (tagName e = ''IFRAME'' \<and> getAttribute ''data-cookie-blocked'' e = Some ''true''
      \<and> hasAttribute ''data-original-src'' e)"

text \<open>\<open>[data-cookie-consent-placeholder="true"]\<close>\<close>

definition selPlaceholder :: "elem \<Rightarrow> bool" where
  "selPlaceholder e = (getAttribute ''data-cookie-consent-placeholder'' e = Some ''true'')"

section \<open>The blocking module\<close>

text \<open>\<open>setBlockingEnabled\<close>\<close>

definition setBlockingEnabled :: "bool \<Rightarrow> dom \<Rightarrow> dom" where
  "setBlockingEnabled enabled s = s\<lparr>blockingEnabled := enabled\<rparr>"

definition setStyles :: "(string \<times> string) list \<Rightarrow> elem \<Rightarrow> elem" where
  "setStyles ds e = fold (\<lambda>d. setStyle (fst d) (snd d)) ds e"

definition wrapperStyles :: "string \<Rightarrow> string \<Rightarrow> (string \<times> string) list" where
  "wrapperStyles width height =
     [(''position'', ''relative''),
      (''width'', width),
      (''height'', height),
      (''display'', ''flex''),
      (''flex-direction'', ''column''),
      (''align-items'', ''center''),
      (''justify-content'', ''center''),
      (''background-color'', ''rgba(31, 41, 55, 0.95)''),
      (''border-radius'', ''6px''),
      (''border'', ''1px solid #4b5563''),
      (''box-shadow'', ''0 4px 12px rgba(0, 0, 0, 0.15)''),
      (''overflow'', ''hidden''),
      (''backdrop-filter'', ''blur(4px)''),
      (''text-align'', ''center''),
      (''color'', ''#f3f4f6''),
      (''font-size'', ''14px''),
      (''line-height'', ''1.4''),
      (''font-family'',
       ''-apple-system, BlinkMacSystemFont, 'Segoe UI', Roboto, Helvetica, Arial, sans-serif'')]"

definition applyWrapperStyles :: "string \<Rightarrow> string \<Rightarrow> elem \<Rightarrow> elem" where
  "applyWrapperStyles width height = setStyles (wrapperStyles width height)"

definition settingsButtonId :: "string \<Rightarrow> string" where
  "settingsButtonId placeholderId = ''cookie-settings-'' @ placeholderId"

definition lockGlyph :: string where
  "lockGlyph = [CHR 0xF0, CHR 0x9F, CHR 0x94, CHR 0x92]"

definition contentElem :: "string \<Rightarrow> (string \<times> string) list \<Rightarrow> (string \<times> string) list
    \<Rightarrow> string \<Rightarrow> elem" where
  "contentElem tg as ds tx =
     \<lparr>tagName = tg, attrs = as, style = ds, listeners = [], textData = tx\<rparr>"

text \<open>\<open>createPlaceholderContent\<close>: the markup, as the parser reads it.\<close>

definition createPlaceholderContent :: "string \<Rightarrow> markup list" where
  "createPlaceholderContent placeholderId =
     [Markup (contentElem ''DIV'' []
        [(''display'', ''flex''), (''flex-direction'', ''column''), (''align-items'', ''center''),
         (''justify-content'', ''center''), (''text-align'', ''center''), (''padding'', ''16px''),
         (''width'', ''100%''), (''max-width'', ''95%''), (''box-sizing'', ''border-box'')] [])
      [Markup (contentElem ''DIV'' []
         [(''margin-bottom'', ''8px''), (''font-size'', ''28px'')] lockGlyph) [],
       Markup (contentElem ''H3'' []
         [(''font-size'', ''16px''), (''margin'', ''0 0 8px 0''), (''font-weight'', ''bold''),
          (''color'', ''white'')] ''Content Blocked'') [],
       Markup (contentElem ''P'' []
         [(''margin'', ''0 0 8px 0''), (''font-size'', ''14px'')]
         (''This content requires cookies that are currently blocked by your privacy ''
          @ ''settings. This embedded content may track your activity.'')) [],
       Markup (contentElem ''P'' []
         [(''margin'', ''0 0 8px 0''), (''font-size'', ''13px''), (''color'', ''#d1d5db'')]
         ''After accepting cookies, please refresh the page to view this content.'') [],
       Markup (contentElem ''DIV'' [(''id'', settingsButtonId placeholderId)]
         [(''margin-top'', ''10px''), (''background-color'', ''#3b82f6''), (''color'', ''white''),
          (''border'', ''none''), (''padding'', ''6px 12px''), (''border-radius'', ''4px''),
          (''font-weight'', ''500''), (''cursor'', ''pointer''), (''font-size'', ''13px''),
          (''transition'', ''all 0.2s ease''), (''display'', ''inline-block'')]
         ''Manage Cookie Settings'') []]]"

text \<open>\<open>addSettingsButtonListeners\<close>: the three handlers, when the button is in the
  document.\<close>

definition addSettingsButtonListeners :: "string \<Rightarrow> dom \<Rightarrow> dom" where
  "addSettingsButtonListeners placeholderId s =
     (case getElementById s (settingsButtonId placeholderId) of
        None \<Rightarrow> s
      | Some settingsButton \<Rightarrow>
          modify settingsButton
            (\<lambda>e. e\<lparr>listeners := listeners e @ [''mouseover'', ''mouseout'', ''click'']\<rparr>) s)"

definition iframeStyles :: "(string \<times> string) list" where
  "iframeStyles =
     [(''position'', ''absolute''), (''top'', ''0''), (''left'', ''0''), (''width'', ''1px''),
      (''height'', ''1px''), (''opacity'', ''0''), (''pointer-events'', ''none''),
      (''visibility'', ''hidden''), (''z-index'', ''-1'')]"

definition positionIframeAbsolutely :: "elem \<Rightarrow> elem" where
  "positionIframeAbsolutely = setStyles iframeStyles"

text \<open>
  \<open>Math.random().toString(36).substring(2, 11)\<close>: the string of the \<open>n\<close>-th draw is
  \<open>rnd n\<close>, for a function \<open>rnd\<close> that stands for the generator; the state counts the
  draws.
\<close>

definition blockedContentId :: "string \<Rightarrow> string" where
  "blockedContentId r = ''cookie-blocked-content-'' @ r"

definition randomId :: "(nat \<Rightarrow> string) \<Rightarrow> dom \<Rightarrow> string \<times> dom" where
  "randomId rnd s = (blockedContentId (rnd (draws s)), s\<lparr>draws := Suc (draws s)\<rparr>)"

definition orElse :: "string \<Rightarrow> string \<Rightarrow> string" where
  "orElse a b = (if a = [] then b else a)"

text \<open>
  \<open>createContentPlaceholder\<close>, in the order of the source. The four steps after the
  check of the parent are named, so that each can be reasoned about on its own:
  marking the iframe (lines 126-128), the wrapper and its markup (131-139), the hidden
  placeholder element (142-147), and putting the three into the tree (150-162).
\<close>

definition markBlocked :: "ident \<Rightarrow> string \<Rightarrow> dom \<Rightarrow> dom" where
  "markBlocked iframe originalSrc s =
     modify iframe (setAttribute ''src'' ''about:blank'')
       (modify iframe (setAttribute ''data-original-src'' originalSrc)
          (modify iframe (setAttribute ''data-cookie-blocked'' ''true'') s))"

definition createWrapper :: "ident \<Rightarrow> string \<Rightarrow> dom \<Rightarrow> ident \<times> dom" where
  "createWrapper iframe placeholderId s =
     (case createElement ''DIV'' s of
        (wrapper, s1) \<Rightarrow>
          (wrapper,
           setInnerHTML wrapper (createPlaceholderContent placeholderId)
             (modify wrapper
                (applyWrapperStyles (orElse (getStyle ''width'' (store s1 iframe)) ''100%'')
                                    (orElse (getStyle ''height'' (store s1 iframe)) ''315px''))
                s1)))"

definition createMarker :: "string \<Rightarrow> string \<Rightarrow> dom \<Rightarrow> ident \<times> dom" where
  "createMarker placeholderId originalSrc s =
     (case createElement ''DIV'' s of
        (placeholderElement, s1) \<Rightarrow>
          (placeholderElement,
           modify placeholderElement
             (setStyle ''display'' ''none''
              \<circ> setAttribute ''data-blocked-src'' originalSrc
              \<circ> setAttribute ''data-cookie-consent-placeholder'' ''true''
              \<circ> setAttribute ''class'' ''cookie-consent-blocked-iframe''
              \<circ> setAttribute ''id'' placeholderId) s1))"

definition mountWrapper :: "ident \<Rightarrow> ident \<Rightarrow> ident \<Rightarrow> ident \<Rightarrow> string \<Rightarrow> dom \<Rightarrow> dom" where
  "mountWrapper parentEl wrapper iframe placeholderElement placeholderId s =
     addSettingsButtonListeners placeholderId
       (appendChild wrapper placeholderElement
          (appendChild wrapper iframe
             (modify iframe positionIframeAbsolutely
                (insertBefore parentEl wrapper iframe s))))"

text \<open>The result is the wrapper, or the error with the state at the moment it was
  raised.\<close>

definition createContentPlaceholder ::
    "(nat \<Rightarrow> string) \<Rightarrow> ident \<Rightarrow> string \<Rightarrow> dom \<Rightarrow> (error + ident) \<times> dom" where
  "createContentPlaceholder rnd iframe originalSrc s0 =
     (case randomId rnd s0 of
        (placeholderId, s1) \<Rightarrow>
          (case parentElement s1 iframe of
             None \<Rightarrow> (Inl NoParentError, s1)
           | Some parentEl \<Rightarrow>
               (case createWrapper iframe placeholderId (markBlocked iframe originalSrc s1) of
                  (wrapper, s2) \<Rightarrow>
                    (case createMarker placeholderId originalSrc s2 of
                       (placeholderElement, s3) \<Rightarrow>
                         (Inr wrapper,
                          mountWrapper parentEl wrapper iframe placeholderElement
                            placeholderId s3)))))"

text \<open>\<open>forEach\<close> with a callback that may throw: the first exception ends the loop.\<close>

fun forEachE :: "('a \<Rightarrow> dom \<Rightarrow> (error + unit) \<times> dom) \<Rightarrow> 'a list \<Rightarrow> dom \<Rightarrow> (error + unit) \<times> dom"
where
  "forEachE f [] s = (Inr (), s)"
| "forEachE f (x # xs) s =
     (case f x s of (Inl e, s') \<Rightarrow> (Inl e, s') | (Inr _, s') \<Rightarrow> forEachE f xs s')"

definition discard :: "(error + 'a) \<times> dom \<Rightarrow> (error + unit) \<times> dom" where
  "discard r = (case r of (Inl e, s) \<Rightarrow> (Inl e, s) | (Inr _, s) \<Rightarrow> (Inr (), s))"

text \<open>The two callbacks of the immediate sweep of \<open>blockTrackingScripts\<close>.\<close>

definition sweepScript :: "string list \<Rightarrow> ident \<Rightarrow> dom \<Rightarrow> dom" where
  "sweepScript trackingKeywords script s =
     (if srcProp (store s script) \<noteq> [] \<and> someIncludes trackingKeywords (srcProp (store s script))
      then removeNode script s else s)"

definition sweepIframe ::
    "(nat \<Rightarrow> string) \<Rightarrow> string list \<Rightarrow> ident \<Rightarrow> dom \<Rightarrow> (error + unit) \<times> dom" where
  "sweepIframe rnd trackingKeywords el s =
     (if blockingEnabled s \<and> srcProp (store s el) \<noteq> [] \<and> srcProp (store s el) \<noteq> ''about:blank''
         \<and> someIncludes trackingKeywords (srcProp (store s el))
      then discard (createContentPlaceholder rnd el (srcProp (store s el)) s)
      else (Inr (), s))"

text \<open>The first loop of the sweep (lines 180-187).\<close>

definition removeTrackingScripts :: "string list \<Rightarrow> dom \<Rightarrow> dom" where
  "removeTrackingScripts trackingKeywords s =
     fold (sweepScript trackingKeywords) (querySelectorAll (isTag ''SCRIPT'') s) s"

text \<open>The callback of the observer, for one added node.\<close>

definition addedScript :: "string list \<Rightarrow> ident \<Rightarrow> dom \<Rightarrow> dom" where
  "addedScript trackingKeywords node s =
     (if tagName (store s node) = ''SCRIPT'' then
        (case getAttribute ''src'' (store s node) of
           None \<Rightarrow> s
         | Some src \<Rightarrow>
             if blockingEnabled s \<and> src \<noteq> [] \<and> someIncludes trackingKeywords src
             then removeNode node s else s)
      else s)"

definition addedIframe ::
    "(nat \<Rightarrow> string) \<Rightarrow> string list \<Rightarrow> ident \<Rightarrow> dom \<Rightarrow> (error + unit) \<times> dom" where
  "addedIframe rnd trackingKeywords node s =
     (if tagName (store s node) = ''IFRAME'' then
        (case getAttribute ''src'' (store s node) of
           None \<Rightarrow> (Inr (), s)
         | Some src \<Rightarrow>
             if blockingEnabled s \<and> src \<noteq> [] \<and> src \<noteq> ''about:blank''
                \<and> someIncludes trackingKeywords src
             then discard (createContentPlaceholder rnd node src s)
             else (Inr (), s))
      else (Inr (), s))"

definition addedNode ::
    "(nat \<Rightarrow> string) \<Rightarrow> string list \<Rightarrow> ident \<Rightarrow> dom \<Rightarrow> (error + unit) \<times> dom" where
  "addedNode rnd trackingKeywords node s =
     addedIframe rnd trackingKeywords node (addedScript trackingKeywords node s)"

text \<open>A mutation record is its list of added nodes; a batch is a list of records.\<close>

type_synonym mutation = "ident list"

fun observerCallback ::
    "(nat \<Rightarrow> string) \<Rightarrow> observer \<Rightarrow> mutation list \<Rightarrow> dom \<Rightarrow> (error + unit) \<times> dom" where
  "observerCallback rnd NoopObserver mutations s = (Inr (), s)"
| "observerCallback rnd (BlockingObserver trackingKeywords) mutations s =
     forEachE (\<lambda>mutation. forEachE (addedNode rnd trackingKeywords) mutation) mutations s"

text \<open>
  The platform delivers a batch to every observer that \<open>observe\<close> registered. An
  exception that leaves a callback is reported by the platform; the observer stays
  registered and the other observers are still called.
\<close>

definition deliver :: "(nat \<Rightarrow> string) \<Rightarrow> mutation list \<Rightarrow> dom \<Rightarrow> dom" where
  "deliver rnd mutations s =
     fold (\<lambda>ob s'. snd (observerCallback rnd ob mutations s')) (observers s) s"

text \<open>\<open>blockTrackingScripts\<close>\<close>

definition blockTrackingScripts ::
    "(nat \<Rightarrow> string) \<Rightarrow> string list \<Rightarrow> dom \<Rightarrow> (error + observer) \<times> dom" where
  "blockTrackingScripts rnd trackingKeywords s =
     (if \<not> blockingEnabled s then (Inr NoopObserver, s)
      else
        let s1 = removeTrackingScripts trackingKeywords s
        in (case forEachE (sweepIframe rnd trackingKeywords)
                   (querySelectorAll (isTag ''IFRAME'') s1) s1 of
              (Inl e, s2) \<Rightarrow> (Inl e, s2)
            | (Inr _, s2) \<Rightarrow>
                (Inr (BlockingObserver trackingKeywords),
                 s2\<lparr>observers := observers s2 @ [BlockingObserver trackingKeywords]\<rparr>)))"

text \<open>\<open>ensurePlaceholdersVisible\<close>\<close>

definition placeholderStyles :: "(string \<times> string) list" where
  "placeholderStyles =
     [(''display'', ''flex''), (''visibility'', ''visible''), (''opacity'', ''1''),
      (''z-index'', ''100'')]"

text \<open>Position the iframe and make sure it still points at \<open>about:blank\<close>.\<close>

definition reassertIframe :: "ident \<Rightarrow> dom \<Rightarrow> dom" where
  "reassertIframe iframe s0 =
     (let s = modify iframe positionIframeAbsolutely s0
      in if srcProp (store s iframe) \<noteq> ''about:blank''
            \<and> hasAttribute ''data-original-src'' (store s iframe)
         then modify iframe (setAttribute ''src'' ''about:blank'') s else s)"

definition hasContent :: "dom \<Rightarrow> ident \<Rightarrow> bool" where
  "hasContent s wrapper =
     (querySelector (hasClass ''cookie-consent-wrapper-content'') s wrapper \<noteq> None
      \<or> str_includes (innerHTML s wrapper) ''Content Blocked'')"

definition idProp :: "elem \<Rightarrow> string" where
  "idProp e = (case getAttribute ''id'' e of None \<Rightarrow> [] | Some v \<Rightarrow> v)"

definition rebuildContent :: "(nat \<Rightarrow> string) \<Rightarrow> ident \<Rightarrow> ident \<Rightarrow> dom \<Rightarrow> dom" where
  "rebuildContent rnd placeholder wrapper s0 =
     (case (if idProp (store s0 placeholder) \<noteq> [] then (idProp (store s0 placeholder), s0)
            else randomId rnd s0) of
        (placeholderId, s) \<Rightarrow>
          let s = setInnerHTML wrapper (createPlaceholderContent placeholderId) s;
              s = appendChild wrapper placeholder s;
              s = (case querySelector (isTag ''IFRAME'') s wrapper of
                     None \<Rightarrow> s
                   | Some iframe \<Rightarrow> appendChild wrapper iframe (reassertIframe iframe s))
          in addSettingsButtonListeners placeholderId s)"

definition ensureStep :: "(nat \<Rightarrow> string) \<Rightarrow> ident \<Rightarrow> dom \<Rightarrow> dom" where
  "ensureStep rnd placeholder s0 =
     (let s = modify placeholder (setStyles placeholderStyles) s0
      in (case parentElement s placeholder of
            None \<Rightarrow> s
          | Some wrapper \<Rightarrow>
              let s = modify wrapper (applyWrapperStyles ''100%'' ''315px'') s;
                  s = (if hasContent s wrapper then s
                       else rebuildContent rnd placeholder wrapper s)
              in (case querySelector (isTag ''IFRAME'') s wrapper of
                    None \<Rightarrow> s
                  | Some iframe \<Rightarrow> reassertIframe iframe s)))"

definition ensurePlaceholdersVisible :: "(nat \<Rightarrow> string) \<Rightarrow> dom \<Rightarrow> dom" where
  "ensurePlaceholdersVisible rnd s =
     fold (ensureStep rnd) (querySelectorAll selPlaceholder s) s"

text \<open>\<open>unblockPreviouslyBlockedContent\<close>\<close>

definition restoreIframe :: "string \<Rightarrow> elem \<Rightarrow> elem" where
  "restoreIframe originalSrc e =
     setStyles [(''position'', []), (''top'', []), (''left'', []), (''width'', []),
                (''height'', []), (''opacity'', []), (''pointer-events'', []),
                (''visibility'', []), (''z-index'', [])]
       (removeAttribute ''data-original-src''
          (removeAttribute ''data-cookie-blocked'' (setAttribute ''src'' originalSrc e)))"

text \<open>\<open>try { parent.replaceChild(new, old) } catch {}\<close>\<close>

definition tryReplaceChild :: "ident \<Rightarrow> ident \<Rightarrow> ident \<Rightarrow> dom \<Rightarrow> dom" where
  "tryReplaceChild p new old s = snd (replaceChild p new old s)"

text \<open>A string that counts as true: present and not empty.\<close>

definition truthy :: "string option \<Rightarrow> string option" where
  "truthy v = (case v of None \<Rightarrow> None | Some x \<Rightarrow> if x = [] then None else Some x)"

definition primaryStep :: "string list \<Rightarrow> ident \<Rightarrow> dom \<Rightarrow> dom" where
  "primaryStep currentBlockedKeywords iframe s0 =
     (case truthy (getAttribute ''data-original-src'' (store s0 iframe)) of
        None \<Rightarrow> s0
      | Some originalSrc \<Rightarrow>
          if someIncludes currentBlockedKeywords originalSrc then s0
          else
            let s = modify iframe (restoreIframe originalSrc) s0
            in (case parentElement s iframe of
                  None \<Rightarrow> s
                | Some wrapper \<Rightarrow>
                    (case parentElement s wrapper of
                       None \<Rightarrow> s
                     | Some wp \<Rightarrow> tryReplaceChild wp iframe wrapper s)))"

definition safetyStep :: "string list \<Rightarrow> ident \<Rightarrow> dom \<Rightarrow> dom" where
  "safetyStep currentBlockedKeywords placeholder s0 =
     (case parentElement s0 placeholder of
        None \<Rightarrow> s0
      | Some wrapper \<Rightarrow>
          let iframe = querySelector (isTag ''IFRAME'') s0 wrapper;
              blockedSrc = truthy (getAttribute ''data-blocked-src'' (store s0 placeholder));
              originalSrc =
                (case iframe of
                   None \<Rightarrow> blockedSrc
                 | Some f \<Rightarrow>
                     (case truthy (getAttribute ''data-original-src'' (store s0 f)) of
                        None \<Rightarrow> blockedSrc
                      | Some v \<Rightarrow> Some v))
          in (case originalSrc of
                None \<Rightarrow> s0
              | Some u \<Rightarrow>
                  if someIncludes currentBlockedKeywords u then s0
                  else
                    (case iframe of
                       Some f \<Rightarrow>
                         let s = modify f (restoreIframe u) s0
                         in (case parentElement s wrapper of
                               None \<Rightarrow> s
                             | Some wp \<Rightarrow> tryReplaceChild wp f wrapper s)
                     | None \<Rightarrow> removeNode wrapper s0)))"

definition primaryPass :: "string list \<Rightarrow> dom \<Rightarrow> dom" where
  "primaryPass currentBlockedKeywords s =
     fold (primaryStep currentBlockedKeywords) (querySelectorAll selBlockedIframe s) s"

definition safetyPass :: "string list \<Rightarrow> dom \<Rightarrow> dom" where
  "safetyPass currentBlockedKeywords s =
     fold (safetyStep currentBlockedKeywords) (querySelectorAll selPlaceholder s) s"

definition unblockPreviouslyBlockedContent :: "string list \<Rightarrow> dom \<Rightarrow> dom" where
  "unblockPreviouslyBlockedContent currentBlockedKeywords s =
     safetyPass currentBlockedKeywords (primaryPass currentBlockedKeywords s)"

section \<open>Properties the claims speak of\<close>

text \<open>An iframe is blocked with recorded URL \<open>u\<close>: its live \<open>src\<close> is \<open>about:blank\<close>,
  the marker is set and \<open>data-original-src\<close> holds \<open>u\<close>.\<close>

definition blockedWith :: "string \<Rightarrow> elem \<Rightarrow> bool" where
  "blockedWith u e =
     (srcProp e = ''about:blank'' \<and> getAttribute ''data-cookie-blocked'' e = Some ''true''
      \<and> getAttribute ''data-original-src'' e = Some u)"

text \<open>A URL the watcher acts on: not empty, not \<open>about:blank\<close>, with a keyword in it.\<close>

definition tracked :: "string list \<Rightarrow> string \<Rightarrow> bool" where
  "tracked keywords u = (u \<noteq> [] \<and> u \<noteq> ''about:blank'' \<and> someIncludes keywords u)"

text \<open>I2 of the specification, for one node and for the whole store.\<close>

definition recordedUrlOk :: "elem \<Rightarrow> bool" where
  "recordedUrlOk e =
     (tagName e = ''IFRAME'' \<and> getAttribute ''data-cookie-blocked'' e = Some ''true''
      \<longrightarrow> (\<exists>u. getAttribute ''data-original-src'' e = Some u \<and> u \<noteq> []))"

definition blockedHaveUrl :: "dom \<Rightarrow> bool" where
  "blockedHaveUrl s = (\<forall>i. recordedUrlOk (store s i))"

text \<open>
  What the restorer still has to do in a state: a blocked iframe of the document that
  its primary pass would restore, a placeholder marker of the document that its safety
  pass would act on. A state is settled for a keyword list when there is neither.
\<close>

definition restorableIframe :: "string list \<Rightarrow> dom \<Rightarrow> ident \<Rightarrow> bool" where
  "restorableIframe keywords s e =
     (case truthy (getAttribute ''data-original-src'' (store s e)) of
        None \<Rightarrow> False
      | Some u \<Rightarrow> \<not> someIncludes keywords u)"

definition markerUrl :: "dom \<Rightarrow> ident \<Rightarrow> ident \<Rightarrow> string option" where
  "markerUrl s placeholder wrapper =
     (case querySelector (isTag ''IFRAME'') s wrapper of
        None \<Rightarrow> truthy (getAttribute ''data-blocked-src'' (store s placeholder))
      | Some f \<Rightarrow>
          (case truthy (getAttribute ''data-original-src'' (store s f)) of
             None \<Rightarrow> truthy (getAttribute ''data-blocked-src'' (store s placeholder))
           | Some v \<Rightarrow> Some v))"

definition restorableMarker :: "string list \<Rightarrow> dom \<Rightarrow> ident \<Rightarrow> bool" where
  "restorableMarker keywords s placeholder =
     (case parentElement s placeholder of
        None \<Rightarrow> False
      | Some wrapper \<Rightarrow>
          (case markerUrl s placeholder wrapper of
             None \<Rightarrow> False
           | Some u \<Rightarrow> \<not> someIncludes keywords u))"

definition settled :: "string list \<Rightarrow> dom \<Rightarrow> bool" where
  "settled keywords s =
     ((\<forall>e\<in>set (querySelectorAll selBlockedIframe s). \<not> restorableIframe keywords s e)
      \<and> (\<forall>p\<in>set (querySelectorAll selPlaceholder s). \<not> restorableMarker keywords s p))"

text \<open>An iframe restored to \<open>u\<close>: live \<open>src\<close> \<open>u\<close>, no marker, no recorded URL, and none
  of the positioning declarations that \<open>positionIframeAbsolutely\<close> sets.\<close>

definition positionCleared :: "elem \<Rightarrow> bool" where
  "positionCleared e = (\<forall>p\<in>set (map fst iframeStyles). map_of (style e) p = None)"

definition unmarked :: "elem \<Rightarrow> bool" where
  "unmarked e =
     (getAttribute ''data-cookie-blocked'' e = None \<and> getAttribute ''data-original-src'' e = None
      \<and> positionCleared e)"

definition restoredTo :: "string \<Rightarrow> elem \<Rightarrow> bool" where
  "restoredTo u e = (srcProp e = u \<and> unmarked e)"

text \<open>All nodes of the state, those of the document first; node identities are unique
  when this list is distinct. The children of a node, in order.\<close>

definition allNodes :: "dom \<Rightarrow> ident list" where
  "allNodes s = concat (map nodes (forest s))"

definition childIds :: "dom \<Rightarrow> ident \<Rightarrow> ident list" where
  "childIds s p = map fst (filter (\<lambda>cp. snd cp = p) (concat (map edges (forest s))))"

text \<open>The elements of a parsed fragment.\<close>

fun markupElems :: "markup \<Rightarrow> elem list" where
  "markupElems (Markup e ms) = e # concat (map markupElems ms)"

text \<open>
  A wrapper shows the placeholder content by something the enforcer never writes: an
  element below it with the class \<open>cookie-consent-wrapper-content\<close>, or an element below
  it whose text has the words \<open>Content Blocked\<close>. The content is shown in a state when
  this holds for the parent element of every placeholder marker of the document.
\<close>

definition showsContent :: "dom \<Rightarrow> ident \<Rightarrow> bool" where
  "showsContent s wrapper =
     list_ex (\<lambda>d. hasClass ''cookie-consent-wrapper-content'' (store s d)
                   \<or> str_includes (textData (store s d)) ''Content Blocked'')
       (descendants s wrapper)"

definition contentShown :: "dom \<Rightarrow> bool" where
  "contentShown s =
     list_all (\<lambda>p. case parentElement s p of None \<Rightarrow> True | Some w \<Rightarrow> showsContent s w)
       (querySelectorAll selPlaceholder s)"

text \<open>
  What the enforcer does to one element when it rebuilds nothing: it sets style
  declarations, and it may reset the \<open>src\<close> of a marked iframe. Two states are alike
  when they differ at most in what such writes change: styles, \<open>src\<close> and listeners.
\<close>

definition resetSrc :: "elem \<Rightarrow> elem" where
  "resetSrc e =
     (if srcProp e \<noteq> ''about:blank'' \<and> hasAttribute ''data-original-src'' e
      then setAttribute ''src'' ''about:blank'' e else e)"

definition restyling :: "(elem \<Rightarrow> elem) \<Rightarrow> bool" where
  "restyling g =
     (\<exists>ds b. (\<forall>d\<in>set ds. snd d \<noteq> [])
            \<and> g = (\<lambda>e. (if b then resetSrc else id) (setStyles ds e)))"

definition alike :: "dom \<Rightarrow> dom \<Rightarrow> bool" where
  "alike s s' =
     (forest s' = forest s
      \<and> (\<forall>i. tagName (store s' i) = tagName (store s i)
             \<and> textData (store s' i) = textData (store s i)
             \<and> (\<forall>k. k \<noteq> ''src'' \<longrightarrow> getAttribute k (store s' i) = getAttribute k (store s i))))"

section \<open>Example documents\<close>

definition mkElem :: "string \<Rightarrow> (string \<times> string) list \<Rightarrow> elem" where
  "mkElem tg as = \<lparr>tagName = tg, attrs = as, style = [], listeners = [], textData = []\<rparr>"

definition emptyStore :: "ident \<Rightarrow> elem" where
  "emptyStore = (\<lambda>_. mkElem ''#text'' [])"

definition exampleRnd :: "nat \<Rightarrow> string" where
  "exampleRnd n = ''r'' @ replicate n (CHR ''x'')"

text \<open>\<open><html><body><iframe src=".../embed/abc"><script src=".../x.js">\<close>\<close>

definition exampleDoc :: dom where
  "exampleDoc =
     \<lparr>document = Tree 0 [Tree 1 [Tree 2 [Tree 3 [], Tree 4 []]]],
      detached = [],
      store = emptyStore
        (0 := mkElem ''#document'' [], 1 := mkElem ''HTML'' [], 2 := mkElem ''BODY'' [],
         3 := mkElem ''IFRAME'' [(''src'', ''https://youtube.com/embed/abc'')],
         4 := mkElem ''SCRIPT'' [(''src'', ''https://youtube.com/x.js'')]),
      nextId = 5, blockingEnabled = True, observers = [], draws = 0\<rparr>"

text \<open>A blocked iframe in its wrapper, with the marker beside it (the markup of the
  wrapper left out).\<close>

definition blockedDoc :: dom where
  "blockedDoc =
     \<lparr>document = Tree 0 [Tree 2 [Tree 3 [Tree 4 [Tree 5 [], Tree 6 []]]]],
      detached = [],
      store = emptyStore
        (0 := mkElem ''#document'' [], 2 := mkElem ''HTML'' [], 3 := mkElem ''BODY'' [],
         4 := mkElem ''DIV'' [],
         5 := mkElem ''IFRAME'' [(''src'', ''about:blank''), (''data-cookie-blocked'', ''true''),
                                 (''data-original-src'', ''https://a.example/x'')],
         6 := mkElem ''DIV'' [(''data-cookie-consent-placeholder'', ''true''),
                              (''data-blocked-src'', ''https://a.example/x'')]),
      nextId = 7, blockingEnabled = True, observers = [], draws = 0\<rparr>"

text \<open>A wrapper whose placeholder marker is itself an iframe.\<close>

definition iframeMarkerDoc :: dom where
  "iframeMarkerDoc =
     \<lparr>document = Tree 0 [Tree 2 [Tree 3 [Tree 4 [Tree 5 []]]]],
      detached = [],
      store = emptyStore
        (0 := mkElem ''#document'' [], 2 := mkElem ''HTML'' [], 3 := mkElem ''BODY'' [],
         4 := mkElem ''DIV'' [],
         5 := mkElem ''IFRAME'' [(''data-cookie-consent-placeholder'', ''true''),
                                 (''data-blocked-src'', ''https://a.example/x'')]),
      nextId = 6, blockingEnabled = True, observers = [], draws = 0\<rparr>"

text \<open>A document whose root element is an iframe.\<close>

definition rootIframeDoc :: dom where
  "rootIframeDoc =
     \<lparr>document = Tree 0 [Tree 3 []],
      detached = [],
      store = emptyStore
        (0 := mkElem ''#document'' [],
         3 := mkElem ''IFRAME'' [(''src'', ''https://youtube.com/embed/abc'')]),
      nextId = 4, blockingEnabled = True, observers = [], draws = 0\<rparr>"

text \<open>A watched document with one iframe in the body, and a second iframe that a script
  inserted and took out again before the observer ran: it is in the batch, without a
  parent.\<close>

definition strayIframeDoc :: dom where
  "strayIframeDoc =
     \<lparr>document = Tree 0 [Tree 1 [Tree 2 [Tree 3 []]]],
      detached = [Tree 4 []],
      store = emptyStore
        (0 := mkElem ''#document'' [], 1 := mkElem ''HTML'' [], 2 := mkElem ''BODY'' [],
         3 := mkElem ''IFRAME'' [(''src'', ''https://youtube.com/embed/abc'')],
         4 := mkElem ''IFRAME'' [(''src'', ''https://youtube.com/embed/xyz'')]),
      nextId = 5, blockingEnabled = True,
      observers = [BlockingObserver [''youtube.com'']], draws = 0\<rparr>"

text \<open>An iframe that was blocked twice: blocked with \<open>https://a.example/x\<close>, then given
  the URL \<open>https://b.example/y\<close> by the page and blocked again by the next sweep, which
  built a second wrapper inside the first.\<close>

definition reblockedDoc :: dom where
  "reblockedDoc =
     \<lparr>document = Tree 0 [Tree 2 [Tree 3 [Tree 4 [Tree 5 [Tree 6 [], Tree 7 []], Tree 8 []]]]],
      detached = [],
      store = emptyStore
        (0 := mkElem ''#document'' [], 2 := mkElem ''HTML'' [], 3 := mkElem ''BODY'' [],
         4 := mkElem ''DIV'' [], 5 := mkElem ''DIV'' [],
         6 := mkElem ''IFRAME'' [(''src'', ''about:blank''), (''data-cookie-blocked'', ''true''),
                                 (''data-original-src'', ''https://b.example/y'')],
         7 := mkElem ''DIV'' [(''data-cookie-consent-placeholder'', ''true''),
                              (''data-blocked-src'', ''https://b.example/y'')],
         8 := mkElem ''DIV'' [(''data-cookie-consent-placeholder'', ''true''),
                              (''data-blocked-src'', ''https://a.example/x'')]),
      nextId = 9, blockingEnabled = True, observers = [], draws = 0\<rparr>"

text \<open>A wrapper without the placeholder markup, around a marked iframe whose URL has the
  words \<open>Content Blocked\<close> in its query, and the marker.\<close>

definition phraseInUrlDoc :: dom where
  "phraseInUrlDoc =
     \<lparr>document = Tree 0 [Tree 2 [Tree 3 [Tree 4 [Tree 5 [], Tree 6 []]]]],
      detached = [],
      store = emptyStore
        (0 := mkElem ''#document'' [], 2 := mkElem ''HTML'' [], 3 := mkElem ''BODY'' [],
         4 := mkElem ''DIV'' [],
         5 := mkElem ''IFRAME'' [(''src'', ''https://a.example/find?q=Content Blocked''),
                                 (''data-cookie-blocked'', ''true''),
                                 (''data-original-src'', ''https://a.example/x'')],
         6 := mkElem ''DIV'' [(''data-cookie-consent-placeholder'', ''true''),
                              (''data-blocked-src'', ''https://a.example/x'')]),
      nextId = 7, blockingEnabled = True, observers = [], draws = 0\<rparr>"

text \<open>A blocked iframe in its wrapper with the heading of the placeholder markup and the
  marker.\<close>

definition shownDoc :: dom where
  "shownDoc =
     \<lparr>document = Tree 0 [Tree 2 [Tree 3 [Tree 4 [Tree 7 [Tree 8 []], Tree 5 [], Tree 6 []]]]],
      detached = [],
      store = emptyStore
        (0 := mkElem ''#document'' [], 2 := mkElem ''HTML'' [], 3 := mkElem ''BODY'' [],
         4 := mkElem ''DIV'' [],
         5 := mkElem ''IFRAME'' [(''src'', ''https://a.example/x''),
                                 (''data-cookie-blocked'', ''true''),
                                 (''data-original-src'', ''https://a.example/x'')],
         6 := mkElem ''DIV'' [(''data-cookie-consent-placeholder'', ''true''),
                              (''data-blocked-src'', ''https://a.example/x'')],
         7 := mkElem ''DIV'' [],
         8 := contentElem ''H3'' [] [(''font-size'', ''16px'')] ''Content Blocked''),
      nextId = 9, blockingEnabled = True, observers = [], draws = 0\<rparr>"

section \<open>What each operation leaves alone\<close>



lemma updTrees_fields [simp]:
  "store (updTrees f s) = store s" "nextId (updTrees f s) = nextId s"
  "blockingEnabled (updTrees f s) = blockingEnabled s" "observers (updTrees f s) = observers s"
  "draws (updTrees f s) = draws s"
  by (simp_all add: updTrees_def)

lemma unlink_fields [simp]:
  "store (unlink c s) = store s" "nextId (unlink c s) = nextId s"
  "blockingEnabled (unlink c s) = blockingEnabled s" "observers (unlink c s) = observers s"
  "draws (unlink c s) = draws s"
  by (simp_all add: unlink_def split: option.split)

lemma appendChild_fields [simp]:
  "store (appendChild p c s) = store s" "nextId (appendChild p c s) = nextId s"
  "blockingEnabled (appendChild p c s) = blockingEnabled s"
  "observers (appendChild p c s) = observers s" "draws (appendChild p c s) = draws s"
  by (simp_all add: appendChild_def split: option.split)

lemma insertBefore_fields [simp]:
  "store (insertBefore p n r s) = store s" "nextId (insertBefore p n r s) = nextId s"
  "blockingEnabled (insertBefore p n r s) = blockingEnabled s"
  "observers (insertBefore p n r s) = observers s" "draws (insertBefore p n r s) = draws s"
  by (simp_all add: insertBefore_def split: option.split)

lemma tryReplaceChild_fields [simp]:
  "store (tryReplaceChild p n r s) = store s" "nextId (tryReplaceChild p n r s) = nextId s"
  "blockingEnabled (tryReplaceChild p n r s) = blockingEnabled s"
  "observers (tryReplaceChild p n r s) = observers s" "draws (tryReplaceChild p n r s) = draws s"
  by (simp_all add: tryReplaceChild_def replaceChild_def Let_def split: option.split)

lemma removeNode_fields [simp]:
  "store (removeNode c s) = store s" "nextId (removeNode c s) = nextId s"
  "blockingEnabled (removeNode c s) = blockingEnabled s"
  "observers (removeNode c s) = observers s" "draws (removeNode c s) = draws s"
  by (simp_all add: removeNode_def Let_def split: option.split)

lemma modify_fields [simp]:
  "store (modify i f s) = (store s)(i := f (store s i))" "nextId (modify i f s) = nextId s"
  "blockingEnabled (modify i f s) = blockingEnabled s"
  "observers (modify i f s) = observers s" "draws (modify i f s) = draws s"
  "document (modify i f s) = document s" "detached (modify i f s) = detached s"
  by (simp_all add: modify_def)

lemma createElement_fields [simp]:
  "fst (createElement tg s) = nextId s"
  "store (snd (createElement tg s)) = (store s)(nextId s := newElem tg)"
  "nextId (snd (createElement tg s)) = Suc (nextId s)"
  "blockingEnabled (snd (createElement tg s)) = blockingEnabled s"
  "observers (snd (createElement tg s)) = observers s"
  "draws (snd (createElement tg s)) = draws s"
  by (simp_all add: createElement_def)

lemma alloc_frame:
  "alloc m n st = (t, n', st') \<Longrightarrow> n \<le> n' \<and> (\<forall>i<n. st' i = st i)"
  "allocs ms n st = (ts, n', st') \<Longrightarrow> n \<le> n' \<and> (\<forall>i<n. st' i = st i)"
proof (induction m n st and ms n st arbitrary: t n' st' and ts n' st' rule: alloc_allocs.induct)
  case (1 e ms n st)
  then show ?case by (fastforce split: prod.splits)
next
  case (2 n st)
  then show ?case by simp
next
  case (3 m ms n st)
  then show ?case by (fastforce split: prod.splits)
qed

lemma setInnerHTML_fields [simp]:
  "blockingEnabled (setInnerHTML w frag s) = blockingEnabled s"
  "observers (setInnerHTML w frag s) = observers s"
  "draws (setInnerHTML w frag s) = draws s"
  by (simp_all add: setInnerHTML_def Let_def split: prod.split)

lemma setInnerHTML_frame:
  "nextId s \<le> nextId (setInnerHTML w frag s)"
  "i < nextId s \<Longrightarrow> i \<noteq> w \<Longrightarrow> store (setInnerHTML w frag s) i = store s i"
  using alloc_frame(2)[of frag "nextId s" "store s"]
  by (auto simp add: setInnerHTML_def Let_def split: prod.split)

lemma addSettingsButtonListeners_fields [simp]:
  "nextId (addSettingsButtonListeners x s) = nextId s"
  "blockingEnabled (addSettingsButtonListeners x s) = blockingEnabled s"
  "observers (addSettingsButtonListeners x s) = observers s"
  "draws (addSettingsButtonListeners x s) = draws s"
  "attrs (store (addSettingsButtonListeners x s) i) = attrs (store s i)"
  "style (store (addSettingsButtonListeners x s) i) = style (store s i)"
  "tagName (store (addSettingsButtonListeners x s) i) = tagName (store s i)"
  by (simp_all add: addSettingsButtonListeners_def split: option.split)


lemma forest_upd [simp]:
  "forest (s\<lparr>draws := d\<rparr>) = forest s"
  "forest (s\<lparr>store := st\<rparr>) = forest s"
  "forest (s\<lparr>observers := ob\<rparr>) = forest s"
  "forest (s\<lparr>blockingEnabled := b\<rparr>) = forest s"
  "forest (s\<lparr>nextId := n\<rparr>) = forest s"
  "forest (modify i f s) = forest s"
  by (simp_all add: forest_def)

lemma parentElement_forest:
  "forest s' = forest s \<Longrightarrow> (\<And>p. tagName (store s' p) = tagName (store s p)) \<Longrightarrow>
   parentElement s' i = parentElement s i"
  by (simp add: parentElement_def parentNode_def split: option.split)

lemma parentElement_draws [simp]: "parentElement (s\<lparr>draws := d\<rparr>) i = parentElement s i"
  by (rule parentElement_forest) simp_all

lemma markBlocked_fields [simp]:
  "store (markBlocked x u s) =
     (store s)(x := (store s x)\<lparr>attrs :=
        AList.update ''src'' ''about:blank''
          (AList.update ''data-original-src'' u
             (AList.update ''data-cookie-blocked'' ''true'' (attrs (store s x))))\<rparr>)"
  "nextId (markBlocked x u s) = nextId s"
  "blockingEnabled (markBlocked x u s) = blockingEnabled s"
  "observers (markBlocked x u s) = observers s"
  "draws (markBlocked x u s) = draws s"
  by (simp_all add: markBlocked_def setAttribute_def)

lemma createWrapper_fields [simp]:
  "fst (createWrapper x pid s) = nextId s"
  "blockingEnabled (snd (createWrapper x pid s)) = blockingEnabled s"
  "observers (snd (createWrapper x pid s)) = observers s"
  "draws (snd (createWrapper x pid s)) = draws s"
  by (simp_all add: createWrapper_def split_beta)

lemma createWrapper_frame:
  "nextId s < nextId (snd (createWrapper x pid s))"
  "i < nextId s \<Longrightarrow> store (snd (createWrapper x pid s)) i = store s i"
proof -
  let ?t = "modify (nextId s)
      (applyWrapperStyles (orElse (getStyle ''width'' (store (snd (createElement ''DIV'' s)) x)) ''100%'')
         (orElse (getStyle ''height'' (store (snd (createElement ''DIV'' s)) x)) ''315px''))
      (snd (createElement ''DIV'' s))"
  have eq: "snd (createWrapper x pid s) = setInnerHTML (nextId s) (createPlaceholderContent pid) ?t"
    by (simp add: createWrapper_def split_beta)
  have n: "nextId ?t = Suc (nextId s)" by simp
  show "nextId s < nextId (snd (createWrapper x pid s))"
    using setInnerHTML_frame(1)[of ?t "nextId s" "createPlaceholderContent pid"] n
    unfolding eq by linarith
  show "store (snd (createWrapper x pid s)) i = store s i" if "i < nextId s"
    using that setInnerHTML_frame(2)[of i ?t "nextId s" "createPlaceholderContent pid"] n
    unfolding eq by simp
qed

lemma createMarker_fields [simp]:
  "fst (createMarker pid u s) = nextId s"
  "nextId (snd (createMarker pid u s)) = Suc (nextId s)"
  "blockingEnabled (snd (createMarker pid u s)) = blockingEnabled s"
  "observers (snd (createMarker pid u s)) = observers s"
  "draws (snd (createMarker pid u s)) = draws s"
  by (simp_all add: createMarker_def split_beta)

lemma createMarker_frame:
  "i < nextId s \<Longrightarrow> store (snd (createMarker pid u s)) i = store s i"
  by (simp add: createMarker_def split_beta)

lemma setStyles_fields [simp]:
  "attrs (setStyles ds e) = attrs e" "tagName (setStyles ds e) = tagName e"
  "listeners (setStyles ds e) = listeners e" "textData (setStyles ds e) = textData e"
  unfolding setStyles_def by (induction ds arbitrary: e; simp add: setStyle_def)+

lemma mountWrapper_fields [simp]:
  "nextId (mountWrapper p w x ph pid s) = nextId s"
  "blockingEnabled (mountWrapper p w x ph pid s) = blockingEnabled s"
  "observers (mountWrapper p w x ph pid s) = observers s"
  "draws (mountWrapper p w x ph pid s) = draws s"
  "attrs (store (mountWrapper p w x ph pid s) i) = attrs (store s i)"
  "tagName (store (mountWrapper p w x ph pid s) i) = tagName (store s i)"
  by (simp_all add: mountWrapper_def positionIframeAbsolutely_def)

lemma ccp_no_parent:
  "parentElement s iframe = None \<Longrightarrow>
   createContentPlaceholder rnd iframe u s = (Inl NoParentError, s\<lparr>draws := Suc (draws s)\<rparr>)"
  by (simp add: createContentPlaceholder_def randomId_def)

lemma ccp_ok:
  "parentElement s iframe = Some p \<Longrightarrow>
   \<exists>s'. createContentPlaceholder rnd iframe u s = (Inr (nextId s), s')"
  by (simp add: createContentPlaceholder_def randomId_def split_beta)

lemma ccp_fields [simp]:
  "blockingEnabled (snd (createContentPlaceholder rnd x u s)) = blockingEnabled s"
  "observers (snd (createContentPlaceholder rnd x u s)) = observers s"
  by (simp_all add: createContentPlaceholder_def randomId_def split_beta split: option.split)

lemma createWrapper_le [simp]: "nextId s \<le> nextId (snd (createWrapper x pid s))"
  using createWrapper_frame(1)[of s x pid] by simp

lemma ccp_nextId: "nextId s \<le> nextId (snd (createContentPlaceholder rnd x u s))"
  using createWrapper_le[of "markBlocked x u (s\<lparr>draws := Suc (draws s)\<rparr>)" x "blockedContentId (rnd (draws s))"]
  by (auto simp add: createContentPlaceholder_def randomId_def split_beta split: option.split)

lemma ccp_store:
  assumes "createContentPlaceholder rnd x u s = (Inr w, s')" "i < nextId s"
  shows "attrs (store s' i) =
           (if i = x
            then AList.update ''src'' ''about:blank''
                   (AList.update ''data-original-src'' u
                      (AList.update ''data-cookie-blocked'' ''true'' (attrs (store s i))))
            else attrs (store s i))"
    and "tagName (store s' i) = tagName (store s i)"
proof -
  from assms(1) obtain p where p: "parentElement s x = Some p"
    by (cases "parentElement s x") (simp_all add: ccp_no_parent)
  let ?s1 = "markBlocked x u (s\<lparr>draws := Suc (draws s)\<rparr>)"
  let ?s2 = "snd (createWrapper x (blockedContentId (rnd (draws s))) ?s1)"
  let ?s3 = "snd (createMarker (blockedContentId (rnd (draws s))) u ?s2)"
  have s': "s' = mountWrapper p (nextId s) x (nextId ?s2) (blockedContentId (rnd (draws s))) ?s3"
    using assms(1) p by (auto simp add: createContentPlaceholder_def randomId_def split_beta)
  have i2: "i < nextId ?s2"
    using createWrapper_frame(1)[of ?s1 x "blockedContentId (rnd (draws s))"] assms(2) by simp
  have st3: "store ?s3 i = store ?s1 i"
    using createMarker_frame[OF i2]
      createWrapper_frame(2)[of i ?s1 x "blockedContentId (rnd (draws s))"] assms(2) by simp
  show "attrs (store s' i) =
           (if i = x
            then AList.update ''src'' ''about:blank''
                   (AList.update ''data-original-src'' u
                      (AList.update ''data-cookie-blocked'' ''true'' (attrs (store s i))))
            else attrs (store s i))"
    unfolding s' by (simp add: st3)
  show "tagName (store s' i) = tagName (store s i)"
    unfolding s' by (simp add: st3)
qed




lemma str_includes_Nil [simp]: "str_includes s []"
  by (cases s) simp_all

lemma someIncludes_simps [simp]:
  "someIncludes [] u = False"
  "[] \<in> set kws \<Longrightarrow> someIncludes kws u"
  by (auto simp add: someIncludes_def list_ex_iff intro: bexI[where x="[]"])

lemma discard_simps [simp]:
  "fst (discard r) = Inl e \<longleftrightarrow> fst r = Inl e"
  "snd (discard r) = snd r"
  "(discard r = (Inr (), s')) \<longleftrightarrow> (\<exists>w. r = (Inr w, s'))"
  "(discard r = (Inl e, s')) \<longleftrightarrow> (r = (Inl e, s'))"
  by (auto simp add: discard_def split: prod.splits sum.splits)

lemma forEachE_append:
  "forEachE f (xs @ ys) s =
     (case forEachE f xs s of (Inl e, s') \<Rightarrow> (Inl e, s') | (Inr _, s') \<Rightarrow> forEachE f ys s')"
  by (induction xs arbitrary: s) (auto split: prod.splits sum.splits)

lemma forEachE_idle:
  "(\<And>x s. f x s = (Inr (), s)) \<Longrightarrow> forEachE f xs s = (Inr (), s)"
  by (induction xs arbitrary: s) simp_all

lemma fold_idle: "(\<And>x s. f x s = s) \<Longrightarrow> fold f xs s = s"
  by (induction xs arbitrary: s) simp_all

lemma stray_parent: "parentElement strayIframeDoc 4 = None"
  by (simp add: parentElement_def parentNode_def forest_def strayIframeDoc_def)

lemma sweepScript_nil [simp]: "sweepScript [] x s = s"
  by (simp add: sweepScript_def)

lemma sweepIframe_nil [simp]: "sweepIframe rnd [] x s = (Inr (), s)"
  by (simp add: sweepIframe_def)

lemma addedNode_nil [simp]: "addedNode rnd [] x s = (Inr (), s)"
  by (simp add: addedNode_def addedIframe_def addedScript_def split: option.split)

lemma blockedWith_cong: "attrs e' = attrs e \<Longrightarrow> blockedWith u e' = blockedWith u e"
  by (simp add: blockedWith_def srcProp_def getAttribute_def)

lemma blockedWith_marked:
  "attrs e' = AList.update ''src'' ''about:blank''
               (AList.update ''data-original-src'' u
                  (AList.update ''data-cookie-blocked'' ''true'' as))
   \<Longrightarrow> blockedWith u e'"
  by (simp add: blockedWith_def srcProp_def getAttribute_def update_conv')

lemma ccp_attrs_other:
  assumes "x \<noteq> e" "e < nextId s"
  shows "attrs (store (snd (createContentPlaceholder rnd x u s)) e) = attrs (store s e)"
proof (cases "parentElement s x")
  case None
  then show ?thesis by (simp add: ccp_no_parent)
next
  case (Some p)
  from ccp_ok[OF this] obtain s' where
    r: "createContentPlaceholder rnd x u s = (Inr (nextId s), s')" by blast
  from ccp_store(1)[OF r assms(2)] assms(1) r show ?thesis by simp
qed

lemma sweepIframe_fields [simp]:
  "blockingEnabled (snd (sweepIframe rnd kws x s)) = blockingEnabled s"
  "observers (snd (sweepIframe rnd kws x s)) = observers s"
  by (simp_all add: sweepIframe_def)

lemma sweepIframe_nextId: "nextId s \<le> nextId (snd (sweepIframe rnd kws x s))"
  by (simp add: sweepIframe_def ccp_nextId)

lemma sweepIframe_other:
  "x \<noteq> e \<Longrightarrow> e < nextId s \<Longrightarrow>
   attrs (store (snd (sweepIframe rnd kws x s)) e) = attrs (store s e)"
  by (simp add: sweepIframe_def ccp_attrs_other)

lemma sweepIframe_self:
  assumes "sweepIframe rnd kws e s = (Inr (), s')" "e < nextId s" "blockingEnabled s"
    "tracked kws (srcProp (store s e))"
  shows "blockedWith (srcProp (store s e)) (store s' e)"
proof -
  from assms(1,3,4) obtain w where
    "createContentPlaceholder rnd e (srcProp (store s e)) s = (Inr w, s')"
    by (auto simp add: sweepIframe_def tracked_def)
  from ccp_store(1)[OF this assms(2)] show ?thesis
    by (auto intro: blockedWith_marked)
qed

lemma sweepIframe_blocked:
  "blockedWith u (store s e) \<Longrightarrow> sweepIframe rnd kws e s = (Inr (), s)"
  by (simp add: sweepIframe_def blockedWith_def)

lemma forEachE_sweepIframe:
  assumes "forEachE (sweepIframe rnd kws) xs s = (Inr (), s')" "blockingEnabled s" "e < nextId s"
    "(e \<in> set xs \<and> srcProp (store s e) = u \<and> tracked kws u) \<or> blockedWith u (store s e)"
  shows "blockedWith u (store s' e)"
  using assms
proof (induction xs arbitrary: s)
  case Nil
  then show ?case by simp
next
  case (Cons x xs)
  obtain r s1 where step: "sweepIframe rnd kws x s = (r, s1)" by (cases "sweepIframe rnd kws x s")
  with Cons.prems(1) have r: "r = Inr ()" and rest: "forEachE (sweepIframe rnd kws) xs s1 = (Inr (), s')"
    by (auto split: sum.splits)
  have en: "blockingEnabled s1" using step Cons.prems(2) sweepIframe_fields(1)[of rnd kws x s] by simp
  have lt: "e < nextId s1" using step Cons.prems(3) sweepIframe_nextId[of s rnd kws x] by simp
  have "(e \<in> set xs \<and> srcProp (store s1 e) = u \<and> tracked kws u) \<or> blockedWith u (store s1 e)"
  proof (cases "x = e")
    case True
    show ?thesis
    proof (cases "blockedWith u (store s e)")
      case True
      with \<open>x = e\<close> step sweepIframe_blocked[of u s e rnd kws] show ?thesis by simp
    next
      case False
      with Cons.prems(4) have "srcProp (store s e) = u" "tracked kws u" by auto
      with sweepIframe_self[of rnd kws e s s1] step r \<open>x = e\<close> Cons.prems(2,3)
      show ?thesis by simp
    qed
  next
    case False
    have a: "attrs (store s1 e) = attrs (store s e)"
      using sweepIframe_other[OF False Cons.prems(3), of rnd kws] step by simp
    then have "srcProp (store s1 e) = srcProp (store s e)"
      by (simp add: srcProp_def getAttribute_def)
    with Cons.prems(4) False blockedWith_cong[OF a] show ?thesis by auto
  qed
  from Cons.IH[OF rest en lt this] show ?case .
qed

lemma removeTrackingScripts_fields [simp]:
  "store (removeTrackingScripts kws s) = store s"
  "nextId (removeTrackingScripts kws s) = nextId s"
  "blockingEnabled (removeTrackingScripts kws s) = blockingEnabled s"
  "observers (removeTrackingScripts kws s) = observers s"
proof -
  have "\<And>xs. store (fold (sweepScript kws) xs s) = store s
        \<and> nextId (fold (sweepScript kws) xs s) = nextId s
        \<and> blockingEnabled (fold (sweepScript kws) xs s) = blockingEnabled s
        \<and> observers (fold (sweepScript kws) xs s) = observers s"
  proof -
    fix xs show "store (fold (sweepScript kws) xs s) = store s
        \<and> nextId (fold (sweepScript kws) xs s) = nextId s
        \<and> blockingEnabled (fold (sweepScript kws) xs s) = blockingEnabled s
        \<and> observers (fold (sweepScript kws) xs s) = observers s"
      by (induction xs arbitrary: s) (simp_all add: sweepScript_def)
  qed
  then show "store (removeTrackingScripts kws s) = store s"
    "nextId (removeTrackingScripts kws s) = nextId s"
    "blockingEnabled (removeTrackingScripts kws s) = blockingEnabled s"
    "observers (removeTrackingScripts kws s) = observers s"
    by (simp_all add: removeTrackingScripts_def)
qed

lemma addedScript_fields [simp]:
  "store (addedScript kws x s) = store s" "nextId (addedScript kws x s) = nextId s"
  "blockingEnabled (addedScript kws x s) = blockingEnabled s"
  "observers (addedScript kws x s) = observers s"
  by (simp_all add: addedScript_def split: option.split)

lemma addedScript_iframe: "tagName (store s x) = ''IFRAME'' \<Longrightarrow> addedScript kws x s = s"
  by (simp add: addedScript_def)

lemma addedNode_blocks:
  assumes "blockingEnabled s" "e < nextId s" "srcProp (store s e) = u" "tracked kws u"
    "tagName (store s e) = ''IFRAME''" "fst (addedNode rnd kws e s) = Inr ()"
  shows "blockedWith u (store (snd (addedNode rnd kws e s)) e)"
proof -
  have as: "addedScript kws e s = s" using assms(5) by (simp add: addedScript_iframe)
  from assms(3,4) have ga: "getAttribute ''src'' (store s e) = Some u"
    by (auto simp add: srcProp_def tracked_def split: option.splits)
  obtain r s' where cc: "createContentPlaceholder rnd e u s = (r, s')"
    by (cases "createContentPlaceholder rnd e u s")
  with assms as ga obtain w where r: "r = Inr w"
    by (cases r) (auto simp add: addedNode_def addedIframe_def tracked_def discard_def)
  have "snd (addedNode rnd kws e s) = s'"
    using as ga assms cc by (simp add: addedNode_def addedIframe_def tracked_def)
  moreover from ccp_store(1)[of rnd e u s w s' e] cc r assms(2) have "blockedWith u (store s' e)"
    by (auto intro: blockedWith_marked)
  ultimately show ?thesis by simp
qed

lemma sweep_blocks:
  assumes "blockingEnabled s" "e < nextId s" "srcProp (store s e) = u" "tracked kws u"
    "e \<in> set (querySelectorAll (isTag ''IFRAME'') (removeTrackingScripts kws s))"
    "fst (blockTrackingScripts rnd kws s) = Inr ob"
  shows "blockedWith u (store (snd (blockTrackingScripts rnd kws s)) e)"
proof -
  let ?s1 = "removeTrackingScripts kws s"
  let ?xs = "querySelectorAll (isTag ''IFRAME'') ?s1"
  obtain r s2 where fe: "forEachE (sweepIframe rnd kws) ?xs ?s1 = (r, s2)"
    by (cases "forEachE (sweepIframe rnd kws) ?xs ?s1")
  with assms(1,6) have r: "r = Inr ()"
    by (auto simp add: blockTrackingScripts_def Let_def split: sum.splits)
  have "blockedWith u (store s2 e)"
    using forEachE_sweepIframe[of rnd kws ?xs ?s1 s2 e u] fe r assms by simp
  moreover have "store (snd (blockTrackingScripts rnd kws s)) = store s2"
    using fe r assms(1) by (simp add: blockTrackingScripts_def Let_def)
  ultimately show ?thesis by simp
qed

lemma example_tracked: "tracked [''youtube.com''] ''https://youtube.com/embed/abc''"
  by (simp add: tracked_def someIncludes_def)

lemma example_scripts_removed:
  "removeTrackingScripts [''youtube.com''] exampleDoc
     = exampleDoc\<lparr>document := Tree 0 [Tree 1 [Tree 2 [Tree 3 []]]], detached := [Tree 4 []]\<rparr>"
  by (simp add: removeTrackingScripts_def querySelectorAll_def docElements_def exampleDoc_def
        isTag_def mkElem_def emptyStore_def sweepScript_def srcProp_def getAttribute_def
        someIncludes_def removeNode_def parentNode_def forest_def subtreeOf_def unlink_def
        updTrees_def)

lemma example_iframes:
  "querySelectorAll (isTag ''IFRAME'') (removeTrackingScripts [''youtube.com''] exampleDoc) = [3]"
  by (simp add: example_scripts_removed)
     (simp add: querySelectorAll_def docElements_def exampleDoc_def isTag_def mkElem_def
        emptyStore_def)

lemma example_parent:
  "parentElement (removeTrackingScripts [''youtube.com''] exampleDoc) 3 = Some 2"
  by (simp add: example_scripts_removed)
     (simp add: parentElement_def parentNode_def forest_def exampleDoc_def mkElem_def
        emptyStore_def)

lemma example_no_exception:
  "fst (blockTrackingScripts exampleRnd [''youtube.com''] exampleDoc)
     = Inr (BlockingObserver [''youtube.com''])"
proof -
  let ?s1 = "removeTrackingScripts [''youtube.com''] exampleDoc"
  have en: "blockingEnabled exampleDoc" by (simp add: exampleDoc_def)
  from ccp_ok[OF example_parent] obtain s' where
    "createContentPlaceholder exampleRnd 3 (srcProp (store ?s1 3)) ?s1 = (Inr (nextId ?s1), s')"
    by blast
  then obtain s2 where
    "forEachE (sweepIframe exampleRnd [''youtube.com'']) [3] ?s1 = (Inr (), s2)"
    by (cases "sweepIframe exampleRnd [''youtube.com''] 3 ?s1")
       (auto simp add: sweepIframe_def discard_def split: if_splits)
  then show ?thesis
    using en by (simp add: blockTrackingScripts_def example_iframes Let_def)
qed

lemma root_parent: "parentElement rootIframeDoc 3 = None"
  by (simp add: parentElement_def parentNode_def forest_def rootIframeDoc_def mkElem_def)

lemma root_scripts: "removeTrackingScripts kws rootIframeDoc = rootIframeDoc"
  by (simp add: removeTrackingScripts_def querySelectorAll_def docElements_def rootIframeDoc_def
        isTag_def mkElem_def emptyStore_def)

lemma root_iframes: "querySelectorAll (isTag ''IFRAME'') rootIframeDoc = [3]"
  by (simp add: querySelectorAll_def docElements_def rootIframeDoc_def isTag_def mkElem_def
        emptyStore_def)

lemma addedNode_fault:
  assumes "fst (addedNode rnd kws x s) = Inl e"
  shows "e = NoParentError \<and> parentElement s x = None
         \<and> addedNode rnd kws x s = (Inl NoParentError, s\<lparr>draws := Suc (draws s)\<rparr>)"
proof -
  have tg: "tagName (store s x) = ''IFRAME''"
    using assms by (auto simp add: addedNode_def addedIframe_def split: if_splits)
  then have as: "addedScript kws x s = s" by (simp add: addedScript_iframe)
  from assms tg as obtain u where u: "getAttribute ''src'' (store s x) = Some u"
    and c: "fst (createContentPlaceholder rnd x u s) = Inl e"
    and ai: "addedNode rnd kws x s = discard (createContentPlaceholder rnd x u s)"
    by (auto simp add: addedNode_def addedIframe_def split: option.splits if_splits)
  have np: "parentElement s x = None"
  proof (cases "parentElement s x")
    case (Some p)
    from ccp_ok[OF this, of rnd u] c show ?thesis by auto
  qed simp
  with ai show ?thesis using c by (simp add: ccp_no_parent discard_def)
qed

lemma addedNode_observers [simp]: "observers (snd (addedNode rnd kws x s)) = observers s"
  by (simp add: addedNode_def addedIframe_def split: option.split)

lemma forEachE_observers:
  "(\<And>x s. observers (snd (f x s)) = observers s) \<Longrightarrow>
   observers (snd (forEachE f xs s)) = observers s"
proof (induction xs arbitrary: s)
  case Nil
  then show ?case by simp
next
  case (Cons x xs)
  obtain r s1 where st: "f x s = (r, s1)" by (cases "f x s")
  with Cons.prems[of x s] have "observers s1 = observers s" by simp
  with Cons.IH[OF Cons.prems, of s1] st show ?case by (cases r) simp_all
qed

lemma observerCallback_observers [simp]:
  "observers (snd (observerCallback rnd ob ms s)) = observers s"
  by (cases ob) (simp_all add: forEachE_observers)

lemma deliver_observers: "observers (deliver rnd ms s) = observers s"
proof -
  have "\<And>obs. observers (fold (\<lambda>ob s'. snd (observerCallback rnd ob ms s')) obs s) = observers s"
  proof -
    fix obs show "observers (fold (\<lambda>ob s'. snd (observerCallback rnd ob ms s')) obs s) = observers s"
      by (induction obs arbitrary: s) simp_all
  qed
  then show ?thesis by (simp add: deliver_def)
qed

lemma stray_src4: "getAttribute ''src'' (store strayIframeDoc 4) = Some ''https://youtube.com/embed/xyz''"
  "tagName (store strayIframeDoc 4) = ''IFRAME''" "blockingEnabled strayIframeDoc"
  by (simp_all add: strayIframeDoc_def getAttribute_def mkElem_def)

lemma stray_src3: "srcProp (store strayIframeDoc 3) = ''https://youtube.com/embed/abc''"
  "tagName (store strayIframeDoc 3) = ''IFRAME''" "3 < nextId strayIframeDoc"
  "parentElement strayIframeDoc 3 = Some 2"
  by (simp_all add: strayIframeDoc_def srcProp_def getAttribute_def mkElem_def emptyStore_def
        parentElement_def parentNode_def forest_def)

lemma stray_tracked: "tracked [''youtube.com''] ''https://youtube.com/embed/xyz''"
  by (simp add: tracked_def someIncludes_def)

lemma stray_fault:
  "addedNode exampleRnd [''youtube.com''] 4 strayIframeDoc
     = (Inl NoParentError, strayIframeDoc\<lparr>draws := Suc (draws strayIframeDoc)\<rparr>)"
  using stray_tracked
  by (simp add: addedNode_def addedIframe_def addedScript_iframe stray_src4 tracked_def
        ccp_no_parent[OF stray_parent] discard_def)

subsection \<open>The recorded URL of blocked iframes\<close>

lemma alloc_all:
  "alloc m n st = (t, n', st') \<Longrightarrow> \<forall>e\<in>set (markupElems m). P e \<Longrightarrow> \<forall>i. P (st i)
     \<Longrightarrow> \<forall>i. P (st' i)"
  "allocs ms n st = (ts, n', st') \<Longrightarrow> \<forall>e\<in>set (concat (map markupElems ms)). P e
     \<Longrightarrow> \<forall>i. P (st i) \<Longrightarrow> \<forall>i. P (st' i)"
proof (induction m n st and ms n st arbitrary: t n' st' and ts n' st' rule: alloc_allocs.induct)
  case (1 e ms n st)
  obtain ts n1 st1 where a: "allocs ms (Suc n) (st(n := e)) = (ts, n1, st1)"
    by (cases "allocs ms (Suc n) (st(n := e))") auto
  with "1.prems"(1) have "st' = st1" by simp
  moreover have "\<forall>i. P (st1 i)"
    using "1.IH"[OF a] "1.prems"(2,3) by simp
  ultimately show ?case by simp
next
  case (2 n st)
  then show ?case by simp
next
  case (3 m ms n st)
  obtain t1 n1 st1 where a: "alloc m n st = (t1, n1, st1)" by (cases "alloc m n st") auto
  obtain ts2 n2 st2 where b: "allocs ms n1 st1 = (ts2, n2, st2)"
    by (cases "allocs ms n1 st1") auto
  from "3.prems"(1) a b have "st' = st2" by simp
  moreover have "\<forall>i. P (st1 i)" using "3.IH"(1)[OF a] "3.prems"(2,3) by simp
  then have "\<forall>i. P (st2 i)" using "3.IH"(2)[OF a[symmetric] _ b] "3.prems"(2) by simp
  ultimately show ?case by simp
qed

lemma recordedUrlOk_not_iframe: "tagName e \<noteq> ''IFRAME'' \<Longrightarrow> recordedUrlOk e"
  by (simp add: recordedUrlOk_def)

lemma recordedUrlOk_cong:
  "attrs e' = attrs e \<Longrightarrow> tagName e' = tagName e \<Longrightarrow> recordedUrlOk e' = recordedUrlOk e"
  by (simp add: recordedUrlOk_def getAttribute_def)

lemma content_not_iframe:
  "\<forall>e\<in>set (concat (map markupElems (createPlaceholderContent pid))). recordedUrlOk e"
  by (simp add: createPlaceholderContent_def contentElem_def recordedUrlOk_def)

lemma inv_store: "store s' = store s \<Longrightarrow> blockedHaveUrl s' = blockedHaveUrl s"
  by (simp add: blockedHaveUrl_def)

lemma inv_modify:
  "blockedHaveUrl s \<Longrightarrow> (recordedUrlOk (store s i) \<Longrightarrow> recordedUrlOk (f (store s i)))
     \<Longrightarrow> blockedHaveUrl (modify i f s)"
  by (simp add: blockedHaveUrl_def)

lemma inv_setInnerHTML:
  "blockedHaveUrl s \<Longrightarrow> blockedHaveUrl (setInnerHTML w (createPlaceholderContent pid) s)"
proof -
  assume a: "blockedHaveUrl s"
  obtain ts n' st' where al: "allocs (createPlaceholderContent pid) (nextId s) (store s) = (ts, n', st')"
    by (cases "allocs (createPlaceholderContent pid) (nextId s) (store s)") auto
  from alloc_all(2)[OF al content_not_iframe] a have "\<forall>i. recordedUrlOk (st' i)"
    by (simp add: blockedHaveUrl_def)
  moreover have "recordedUrlOk (e\<lparr>textData := []\<rparr>) = recordedUrlOk e" for e
    by (simp add: recordedUrlOk_def getAttribute_def)
  ultimately show ?thesis using al by (simp add: setInnerHTML_def Let_def blockedHaveUrl_def)
qed

lemma inv_createElement:
  "blockedHaveUrl s \<Longrightarrow> tg \<noteq> ''IFRAME'' \<Longrightarrow> blockedHaveUrl (snd (createElement tg s))"
  by (simp add: blockedHaveUrl_def newElem_def recordedUrlOk_def)

lemma inv_listeners:
  "blockedHaveUrl s \<Longrightarrow> blockedHaveUrl (addSettingsButtonListeners pid s)"
  by (auto simp add: addSettingsButtonListeners_def recordedUrlOk_def getAttribute_def
        intro!: inv_modify split: option.split)

lemma recordedUrlOk_setStyles: "recordedUrlOk e \<Longrightarrow> recordedUrlOk (setStyles ds e)"
  by (simp add: recordedUrlOk_cong[of "setStyles ds e" e])

lemma recordedUrlOk_src: "recordedUrlOk e \<Longrightarrow> recordedUrlOk (setAttribute ''src'' v e)"
  by (simp add: recordedUrlOk_def setAttribute_def getAttribute_def update_conv')

lemma recordedUrlOk_restore: "recordedUrlOk (restoreIframe u e)"
  by (simp add: recordedUrlOk_def restoreIframe_def removeAttribute_def setAttribute_def
        getAttribute_def delete_conv' setStyles_fields[unfolded getAttribute_def])

lemma inv_markBlocked: "blockedHaveUrl s \<Longrightarrow> u \<noteq> [] \<Longrightarrow> blockedHaveUrl (markBlocked x u s)"
  by (simp add: blockedHaveUrl_def recordedUrlOk_def getAttribute_def update_conv')

lemma inv_createWrapper:
  "blockedHaveUrl s \<Longrightarrow> blockedHaveUrl (snd (createWrapper x pid s))"
  by (auto simp add: createWrapper_def split_beta applyWrapperStyles_def
        intro!: inv_setInnerHTML inv_modify inv_createElement recordedUrlOk_setStyles)

lemma inv_createMarker:
  "blockedHaveUrl s \<Longrightarrow> blockedHaveUrl (snd (createMarker pid u s))"
  by (auto simp add: createMarker_def split_beta newElem_def setStyle_def setAttribute_def
        intro!: inv_modify recordedUrlOk_not_iframe inv_createElement)

lemma inv_mountWrapper:
  "blockedHaveUrl s \<Longrightarrow> blockedHaveUrl (mountWrapper p w x ph pid s)"
  unfolding mountWrapper_def
  by (intro inv_listeners)
     (simp add: blockedHaveUrl_def positionIframeAbsolutely_def recordedUrlOk_setStyles)

lemma inv_ccp:
  "blockedHaveUrl s \<Longrightarrow> u \<noteq> [] \<Longrightarrow> blockedHaveUrl (snd (createContentPlaceholder rnd x u s))"
  by (auto simp add: createContentPlaceholder_def randomId_def split_beta
        inv_store[of "s\<lparr>draws := Suc (draws s)\<rparr>" s]
        intro!: inv_mountWrapper inv_createMarker inv_createWrapper inv_markBlocked
        split: option.split)

lemma fold_inv: "(\<And>x s. P s \<Longrightarrow> P (f x s)) \<Longrightarrow> P s \<Longrightarrow> P (fold f xs s)"
  by (induction xs arbitrary: s) simp_all

lemma forEachE_inv:
  "(\<And>x s. P s \<Longrightarrow> P (snd (f x s))) \<Longrightarrow> P s \<Longrightarrow> P (snd (forEachE f xs s))"
proof (induction xs arbitrary: s)
  case Nil
  then show ?case by simp
next
  case (Cons x xs)
  obtain r s1 where st: "f x s = (r, s1)" by (cases "f x s")
  with Cons.prems(1)[OF Cons.prems(2), of x] have "P s1" by simp
  from Cons.IH[OF Cons.prems(1) this] st Cons.prems(1)[OF Cons.prems(2), of x]
  show ?case by (cases r) simp_all
qed

lemma inv_sweepScript: "blockedHaveUrl s \<Longrightarrow> blockedHaveUrl (sweepScript kws x s)"
  by (simp add: sweepScript_def inv_store[of "removeNode x s" s])

lemma inv_sweepIframe: "blockedHaveUrl s \<Longrightarrow> blockedHaveUrl (snd (sweepIframe rnd kws x s))"
  by (simp add: sweepIframe_def inv_ccp)

lemma inv_blockTrackingScripts:
  "blockedHaveUrl s \<Longrightarrow> blockedHaveUrl (snd (blockTrackingScripts rnd kws s))"
proof -
  assume a: "blockedHaveUrl s"
  let ?s1 = "removeTrackingScripts kws s"
  have 1: "blockedHaveUrl ?s1" using a by (simp add: inv_store[of ?s1 s])
  have 2: "blockedHaveUrl (snd (forEachE (sweepIframe rnd kws) xs ?s1))" for xs
    by (rule forEachE_inv[where P=blockedHaveUrl, OF inv_sweepIframe 1])
  show ?thesis
    using a 2[of "querySelectorAll (isTag ''IFRAME'') ?s1"]
    by (auto simp add: blockTrackingScripts_def Let_def blockedHaveUrl_def
          split: prod.splits sum.splits)
qed

lemma inv_addedNode: "blockedHaveUrl s \<Longrightarrow> blockedHaveUrl (snd (addedNode rnd kws x s))"
  by (auto simp add: addedNode_def addedIframe_def inv_ccp inv_store[of "addedScript kws x s" s]
        split: option.split)

lemma inv_observerCallback:
  "blockedHaveUrl s \<Longrightarrow> blockedHaveUrl (snd (observerCallback rnd ob ms s))"
proof (cases ob)
  case NoopObserver
  assume "blockedHaveUrl s" with NoopObserver show ?thesis by simp
next
  case (BlockingObserver kws)
  assume a: "blockedHaveUrl s"
  have "blockedHaveUrl (snd (forEachE (addedNode rnd kws) m t))" if "blockedHaveUrl t" for m t
    by (rule forEachE_inv[where P=blockedHaveUrl, OF inv_addedNode that])
  from forEachE_inv[where P=blockedHaveUrl and f="\<lambda>m. forEachE (addedNode rnd kws) m", OF this a]
  show ?thesis using BlockingObserver by simp
qed

lemma inv_deliver: "blockedHaveUrl s \<Longrightarrow> blockedHaveUrl (deliver rnd ms s)"
  unfolding deliver_def by (rule fold_inv[where P=blockedHaveUrl]) (rule inv_observerCallback)

lemma inv_reassertIframe: "blockedHaveUrl s \<Longrightarrow> blockedHaveUrl (reassertIframe x s)"
  by (auto simp add: reassertIframe_def Let_def positionIframeAbsolutely_def
        intro!: inv_modify recordedUrlOk_src recordedUrlOk_setStyles)

lemma inv_appendChild: "blockedHaveUrl s \<Longrightarrow> blockedHaveUrl (appendChild p c s)"
  by (simp add: inv_store[of "appendChild p c s" s])

lemma inv_rebuildContent:
  "blockedHaveUrl s \<Longrightarrow> blockedHaveUrl (rebuildContent rnd ph w s)"
  by (auto simp add: rebuildContent_def randomId_def Let_def
        inv_store[of "s\<lparr>draws := Suc (draws s)\<rparr>" s]
        intro!: inv_listeners inv_appendChild inv_reassertIframe inv_setInnerHTML
        split: option.split)

lemma inv_ensureStep: "blockedHaveUrl s \<Longrightarrow> blockedHaveUrl (ensureStep rnd ph s)"
  by (auto simp add: ensureStep_def Let_def applyWrapperStyles_def
        intro!: inv_reassertIframe inv_rebuildContent inv_modify recordedUrlOk_setStyles
        split: option.split)

lemma inv_tryReplaceChild: "blockedHaveUrl s \<Longrightarrow> blockedHaveUrl (tryReplaceChild p n r s)"
  by (simp add: inv_store[of "tryReplaceChild p n r s" s])

lemma inv_primaryStep: "blockedHaveUrl s \<Longrightarrow> blockedHaveUrl (primaryStep kws x s)"
  by (auto simp add: primaryStep_def Let_def recordedUrlOk_restore
        intro!: inv_tryReplaceChild inv_modify split: option.split)

lemma inv_safetyStep: "blockedHaveUrl s \<Longrightarrow> blockedHaveUrl (safetyStep kws x s)"
  by (auto simp add: safetyStep_def Let_def recordedUrlOk_restore inv_store[of "removeNode w s" s for w]
        intro!: inv_tryReplaceChild inv_modify split: option.split)

lemma example_inv: "blockedHaveUrl exampleDoc"
  by (simp add: blockedHaveUrl_def exampleDoc_def recordedUrlOk_def getAttribute_def mkElem_def
        emptyStore_def)

lemma fold_filter_idle:
  "(\<And>x s. \<not> P x \<Longrightarrow> f x s = s) \<Longrightarrow> fold f (filter P xs) s = fold f xs s"
  by (induction xs arbitrary: s) simp_all

lemma fold_removeNode_store [simp]: "store (fold removeNode xs s) = store s"
  by (induction xs arbitrary: s) simp_all

lemma fold_sweepScript_all:
  "[] \<in> set kws \<Longrightarrow> (\<And>x. store t x = store s x) \<Longrightarrow>
   fold (sweepScript kws) xs t = fold removeNode [x\<leftarrow>xs. srcProp (store s x) \<noteq> []] t"
proof (induction xs arbitrary: t)
  case Nil
  then show ?case by simp
next
  case (Cons x xs)
  have "sweepScript kws x t = (if srcProp (store s x) \<noteq> [] then removeNode x t else t)"
    using Cons.prems by (simp add: sweepScript_def)
  moreover have "store (sweepScript kws x t) y = store s y" for y
    using Cons.prems(2) by (simp add: sweepScript_def)
  ultimately show ?case using Cons.IH[OF Cons.prems(1), of "sweepScript kws x t"] by simp
qed

lemma example_scripts_removed_empty_kw:
  "removeTrackingScripts [[]] exampleDoc
     = exampleDoc\<lparr>document := Tree 0 [Tree 1 [Tree 2 [Tree 3 []]]], detached := [Tree 4 []]\<rparr>"
  by (simp add: removeTrackingScripts_def querySelectorAll_def docElements_def exampleDoc_def
        isTag_def mkElem_def emptyStore_def sweepScript_def srcProp_def getAttribute_def
        someIncludes_def removeNode_def parentNode_def forest_def subtreeOf_def unlink_def
        updTrees_def)

lemma example_iframes_empty_kw:
  "querySelectorAll (isTag ''IFRAME'') (removeTrackingScripts [[]] exampleDoc) = [3]"
  by (simp add: example_scripts_removed_empty_kw)
     (simp add: querySelectorAll_def docElements_def exampleDoc_def isTag_def mkElem_def
        emptyStore_def)

lemma example_parent_empty_kw:
  "parentElement (removeTrackingScripts [[]] exampleDoc) 3 = Some 2"
  by (simp add: example_scripts_removed_empty_kw)
     (simp add: parentElement_def parentNode_def forest_def exampleDoc_def mkElem_def
        emptyStore_def)

lemma example_no_exception_empty_kw:
  "fst (blockTrackingScripts exampleRnd [[]] exampleDoc) = Inr (BlockingObserver [[]])"
proof -
  let ?s1 = "removeTrackingScripts [[]] exampleDoc"
  have en: "blockingEnabled exampleDoc" by (simp add: exampleDoc_def)
  from ccp_ok[OF example_parent_empty_kw] obtain s' where
    "createContentPlaceholder exampleRnd 3 (srcProp (store ?s1 3)) ?s1 = (Inr (nextId ?s1), s')"
    by blast
  then obtain s2 where
    "forEachE (sweepIframe exampleRnd [[]]) [3] ?s1 = (Inr (), s2)"
    by (cases "sweepIframe exampleRnd [[]] 3 ?s1")
       (auto simp add: sweepIframe_def discard_def split: if_splits)
  then show ?thesis
    using en by (simp add: blockTrackingScripts_def example_iframes_empty_kw Let_def)
qed

lemma fold_fixed: "(\<And>x. x \<in> set xs \<Longrightarrow> f x s = s) \<Longrightarrow> fold f xs s = s"
  by (induction xs) simp_all

lemma primaryStep_idle: "\<not> restorableIframe kws s e \<Longrightarrow> primaryStep kws e s = s"
  by (auto simp add: restorableIframe_def primaryStep_def split: option.splits)

lemma safetyStep_idle: "\<not> restorableMarker kws s p \<Longrightarrow> safetyStep kws p s = s"
  by (auto simp add: restorableMarker_def markerUrl_def safetyStep_def Let_def
        split: option.splits)

lemma blockedDoc_settled: "settled [] (unblockPreviouslyBlockedContent [] blockedDoc)"
  by code_simp

lemma iframeMarker_once:
  "document (unblockPreviouslyBlockedContent [] iframeMarkerDoc)
     = Tree 0 [Tree 2 [Tree 3 [Tree 5 []]]]"
  by code_simp

lemma iframeMarker_twice:
  "document (unblockPreviouslyBlockedContent [] (unblockPreviouslyBlockedContent [] iframeMarkerDoc))
     = Tree 0 [Tree 2 [Tree 5 []]]"
  by code_simp

subsection \<open>Restoring: what happens to the data of the iframe\<close>

lemma fold_delete_none: "p \<in> set ks \<or> map_of al p = None \<Longrightarrow> map_of (fold AList.delete ks al) p = None"
  by (induction ks arbitrary: al) (auto simp add: delete_conv')

lemma setStyles_clear:
  "style (setStyles (map (\<lambda>k. (k, [])) ks) e) = fold AList.delete ks (style e)"
  unfolding setStyles_def by (induction ks arbitrary: e) (simp_all add: setStyle_def)

lemma restoreIframe_fields:
  "attrs (restoreIframe u e)
     = AList.delete ''data-original-src''
         (AList.delete ''data-cookie-blocked'' (AList.update ''src'' u (attrs e)))"
  "style (restoreIframe u e) = fold AList.delete (map fst iframeStyles) (style e)"
  "tagName (restoreIframe u e) = tagName e"
proof -
  have l: "[(''position'', []), (''top'', []), (''left'', []), (''width'', []),
            (''height'', []), (''opacity'', []), (''pointer-events'', []),
            (''visibility'', []), (''z-index'', [])]
           = map (\<lambda>k. (k, [])) (map fst iframeStyles)"
    by (simp add: iframeStyles_def)
  show "style (restoreIframe u e) = fold AList.delete (map fst iframeStyles) (style e)"
    unfolding restoreIframe_def l setStyles_clear
    by (simp add: removeAttribute_def setAttribute_def)
  show "attrs (restoreIframe u e)
     = AList.delete ''data-original-src''
         (AList.delete ''data-cookie-blocked'' (AList.update ''src'' u (attrs e)))"
    by (simp add: restoreIframe_def removeAttribute_def setAttribute_def)
  show "tagName (restoreIframe u e) = tagName e"
    by (simp add: restoreIframe_def removeAttribute_def setAttribute_def)
qed

lemma restoreIframe_restoredTo: "restoredTo u (restoreIframe u e)"
  unfolding restoredTo_def unmarked_def positionCleared_def srcProp_def getAttribute_def
    restoreIframe_fields
  by (simp add: delete_conv' update_conv' fold_delete_none)

lemma restoreIframe_unmarked: "unmarked (restoreIframe u e)"
  using restoreIframe_restoredTo[of u e] by (simp add: restoredTo_def)

lemma restoreIframe_not_truthy:
  "truthy (getAttribute ''data-original-src'' (restoreIframe u e)) = None"
  using restoreIframe_unmarked[of u e] by (simp add: unmarked_def truthy_def)

lemma primaryStep_store:
  "store (primaryStep kws x s) =
     (case truthy (getAttribute ''data-original-src'' (store s x)) of
        None \<Rightarrow> store s
      | Some u \<Rightarrow> if someIncludes kws u then store s
                  else (store s)(x := restoreIframe u (store s x)))"
  by (simp add: primaryStep_def Let_def split: option.split)

lemma safetyStep_store:
  "store (safetyStep kws p s) = store s
   \<or> (\<exists>f u. store (safetyStep kws p s) = (store s)(f := restoreIframe u (store s f)))"
  by (auto simp add: safetyStep_def Let_def split: option.split)

lemma primaryStep_restores:
  "truthy (getAttribute ''data-original-src'' (store s e)) = Some u \<Longrightarrow> \<not> someIncludes kws u
   \<Longrightarrow> restoredTo u (store (primaryStep kws e s) e)"
  by (simp add: primaryStep_store restoreIframe_restoredTo)

lemma primaryStep_keeps_restored:
  "restoredTo u (store s e) \<Longrightarrow> restoredTo u (store (primaryStep kws x s) e)"
proof (cases "x = e")
  case True
  assume "restoredTo u (store s e)"
  then have "truthy (getAttribute ''data-original-src'' (store s e)) = None"
    by (simp add: restoredTo_def unmarked_def truthy_def)
  with True \<open>restoredTo u (store s e)\<close> show ?thesis by (simp add: primaryStep_store)
next
  case False
  assume "restoredTo u (store s e)"
  with False show ?thesis by (simp add: primaryStep_store split: option.split)
qed

lemma primaryPass_restores:
  assumes "truthy (getAttribute ''data-original-src'' (store s e)) = Some u"
    "\<not> someIncludes kws u" "e \<in> set xs"
  shows "restoredTo u (store (fold (primaryStep kws) xs s) e)"
proof -
  have "(e \<in> set xs \<and> truthy (getAttribute ''data-original-src'' (store s e)) = Some u)
          \<or> restoredTo u (store s e)
        \<Longrightarrow> restoredTo u (store (fold (primaryStep kws) xs s) e)"
  proof (induction xs arbitrary: s)
    case Nil
    then show ?case by simp
  next
    case (Cons x xs)
    have "(e \<in> set xs \<and> truthy (getAttribute ''data-original-src'' (store (primaryStep kws x s) e)) = Some u)
          \<or> restoredTo u (store (primaryStep kws x s) e)"
    proof (cases "restoredTo u (store s e)")
      case True
      then show ?thesis by (simp add: primaryStep_keeps_restored)
    next
      case False
      with Cons.prems have h: "e \<in> set (x # xs)"
        "truthy (getAttribute ''data-original-src'' (store s e)) = Some u" by auto
      show ?thesis
      proof (cases "x = e")
        case True
        with h(2) assms(2) show ?thesis by (simp add: primaryStep_restores)
      next
        case False
        with h show ?thesis by (simp add: primaryStep_store split: option.split)
      qed
    qed
    from Cons.IH[OF this] show ?case by simp
  qed
  with assms show ?thesis by simp
qed

lemma safetyStep_keeps_unmarked:
  "unmarked (store s e) \<Longrightarrow> unmarked (store (safetyStep kws p s) e)"
  using safetyStep_store[of kws p s] by (auto simp add: restoreIframe_unmarked)

lemma safetyPass_keeps_unmarked:
  "unmarked (store s e) \<Longrightarrow> unmarked (store (fold (safetyStep kws) xs s) e)"
  by (induction xs arbitrary: s) (simp_all add: safetyStep_keeps_unmarked)

subsection \<open>Trees with unique node identities\<close>

lemma root_map_kids [simp]: "root (map_kids p f t) = root t"
  by (cases t) simp

lemma root_in_nodes [simp]: "root t \<in> set (nodes t)"
  by (cases t) simp

lemma self_subtree [simp]: "t \<in> set (subtrees t)"
  by (cases t) simp

lemma subtree_nodes: "k \<in> set (subtrees t) \<Longrightarrow> set (nodes k) \<subseteq> set (nodes t)"
proof (induction t)
  case (Tree r ts)
  show ?case
  proof (cases "k = Tree r ts")
    case True
    then show ?thesis by simp
  next
    case False
    with Tree.prems obtain t where t: "t \<in> set ts" "k \<in> set (subtrees t)" by auto
    from Tree.IH[OF this] t(1) show ?thesis by auto
  qed
qed

lemma subtree_edges: "k \<in> set (subtrees t) \<Longrightarrow> set (edges k) \<subseteq> set (edges t)"
proof (induction t)
  case (Tree r ts)
  show ?case
  proof (cases "k = Tree r ts")
    case True
    then show ?thesis by simp
  next
    case False
    with Tree.prems obtain t where t: "t \<in> set ts" "k \<in> set (subtrees t)" by auto
    from Tree.IH[OF this] t(1) show ?thesis by auto
  qed
qed

lemma edges_in_nodes:
  "(c, p) \<in> set (edges t) \<Longrightarrow> c \<in> set (tl (nodes t)) \<and> p \<in> set (nodes t)"
proof (induction t)
  case (Tree r ts)
  show ?case
  proof (cases "c \<in> root ` set ts \<and> p = r")
    case True
    then obtain t where "t \<in> set ts" "c = root t" by auto
    then have "c \<in> set (concat (map nodes ts))" by (auto intro!: bexI[where x=t])
    with True show ?thesis by simp
  next
    case False
    with Tree.prems obtain t where t: "t \<in> set ts" "(c, p) \<in> set (edges t)" by auto
    from Tree.IH[OF this] have "c \<in> set (nodes t)" "p \<in> set (nodes t)"
      by (auto dest: list.set_sel(2)[rotated])
    with t(1) show ?thesis by auto
  qed
qed

lemma nodes_have_edges:
  "c \<in> set (tl (nodes t)) \<Longrightarrow> \<exists>p. (c, p) \<in> set (edges t)"
proof (induction t)
  case (Tree r ts)
  then obtain t where t: "t \<in> set ts" "c \<in> set (nodes t)" by auto
  show ?case
  proof (cases "c = root t")
    case True
    with t(1) have "(c, r) \<in> set (edges (Tree r ts))" by auto
    then show ?thesis by blast
  next
    case False
    with t(2) have "c \<in> set (tl (nodes t))" by (cases t) auto
    from Tree.IH[OF t(1) this] obtain p where "(c, p) \<in> set (edges t)" by blast
    with t(1) have "(c, p) \<in> set (edges (Tree r ts))" by auto
    then show ?thesis by blast
  qed
qed

lemma edge_subtree:
  "(c, p) \<in> set (edges t) \<Longrightarrow> \<exists>k\<in>set (subtrees t). root k = p \<and> c \<in> root ` set (subs k)"
proof (induction t)
  case (Tree r ts)
  show ?case
  proof (cases "c \<in> root ` set ts \<and> p = r")
    case True
    then show ?thesis by (intro bexI[where x="Tree r ts"]) auto
  next
    case False
    with Tree.prems obtain t where t: "t \<in> set ts" "(c, p) \<in> set (edges t)" by auto
    from Tree.IH[OF this] obtain k where "k \<in> set (subtrees t)" "root k = p"
      "c \<in> root ` set (subs k)" by blast
    with t(1) show ?thesis by (intro bexI[where x=k]) auto
  qed
qed

lemma kid_subtree: "k \<in> set (subtrees t) \<Longrightarrow> c \<in> set (subs k) \<Longrightarrow> c \<in> set (subtrees t)"
proof (induction t)
  case (Tree r ts)
  show ?case
  proof (cases "k = Tree r ts")
    case True
    with Tree.prems(2) have "c \<in> set ts" by simp
    then show ?thesis by (auto intro!: bexI[where x=c])
  next
    case False
    with Tree.prems(1) obtain t where t: "t \<in> set ts" "k \<in> set (subtrees t)" by auto
    from Tree.IH[OF this Tree.prems(2)] t(1) show ?thesis by auto
  qed
qed

lemma subtree_distinct: "k \<in> set (subtrees t) \<Longrightarrow> distinct (nodes t) \<Longrightarrow> distinct (nodes k)"
proof (induction t)
  case (Tree r ts)
  show ?case
  proof (cases "k = Tree r ts")
    case True
    with Tree.prems show ?thesis by simp
  next
    case False
    with Tree.prems(1) obtain t where t: "t \<in> set ts" "k \<in> set (subtrees t)" by auto
    from Tree.prems(2) have "distinct (concat (map nodes ts))" by simp
    with t(1) have "distinct (nodes t)" by (auto simp add: distinct_concat_iff)
    from Tree.IH[OF t this] show ?thesis .
  qed
qed

lemma kid_below:
  "c \<in> set (subs k) \<Longrightarrow> distinct (nodes k) \<Longrightarrow>
   set (nodes c) \<subseteq> set (nodes k) \<and> root k \<notin> set (nodes c)"
  by (cases k) auto

lemma no_edges_to: "g \<notin> set (nodes k) \<Longrightarrow> filter (\<lambda>cp. snd cp = g) (edges k) = []"
  by (auto simp add: filter_empty_conv dest: edges_in_nodes)

lemma concat_filter_kids:
  "(\<And>k. k \<in> set ts \<Longrightarrow> P (f k) \<Longrightarrow> h (f k) = h' k) \<Longrightarrow>
   (\<And>k. k \<in> set ts \<Longrightarrow> \<not> P (f k) \<Longrightarrow> h' k = []) \<Longrightarrow>
   concat (map h (filter P (map f ts))) = concat (map h' ts)"
  by (induction ts) auto

lemma concat_replace_kids:
  "(\<And>k. k \<in> set ts \<Longrightarrow> \<not> Q k \<Longrightarrow> h (f k) = h' k) \<Longrightarrow>
   (\<And>k. k \<in> set ts \<Longrightarrow> Q k \<Longrightarrow> h t = h' k) \<Longrightarrow>
   concat (map h (map (\<lambda>k. if Q k then t else f k) ts)) = concat (map h' ts)"
  by (induction ts) auto

lemma unlink_keeps_children_of:
  assumes "g \<noteq> w" "\<And>k. k \<in> set (subtrees T) \<Longrightarrow> root k = e \<Longrightarrow> g \<notin> set (nodes k)"
  shows "filter (\<lambda>cp. snd cp = g) (edges (map_kids w (filter (\<lambda>k. root k \<noteq> e)) T))
           = filter (\<lambda>cp. snd cp = g) (edges T)"
  using assms(2)
proof (induction T)
  case (Tree r ts)
  let ?rec = "map_kids w (filter (\<lambda>k. root k \<noteq> e))"
  let ?h = "\<lambda>k. filter (\<lambda>cp. snd cp = g) (edges k)"
  have sub: "k' \<in> set (subtrees (Tree r ts))" if "k \<in> set ts" "k' \<in> set (subtrees k)" for k k'
    using that by auto
  have ih: "?h (?rec k) = ?h k" if "k \<in> set ts" for k
    using Tree.IH[OF that] Tree.prems sub[OF that] by blast
  have rm: "?h k = []" if "k \<in> set ts" "root k = e" for k
    using Tree.prems[OF sub[OF that(1) self_subtree] that(2)] by (rule no_edges_to)
  have deep: "concat (map ?h (filter (\<lambda>k. root k \<noteq> e) (map ?rec ts))) = concat (map ?h ts)"
    by (rule concat_filter_kids) (simp_all add: ih rm)
  have deep': "concat (map ?h (map ?rec ts)) = concat (map ?h ts)"
    using ih by (intro arg_cong[where f=concat] ) (simp add: map_idI)
  show ?case
  proof (cases "r = w")
    case True
    with assms(1) have "r \<noteq> g" by simp
    then show ?thesis using True deep
      by (simp add: filter_concat filter_map comp_def)
  next
    case False
    then show ?thesis using deep'
      by (simp add: filter_concat filter_map comp_def)
  qed
qed

lemma children_of_Tree:
  "map fst (filter (\<lambda>cp. snd cp = g) (edges (Tree r ks)))
     = (if r = g then map root ks else [])
       @ concat (map (\<lambda>k. map fst (filter (\<lambda>cp. snd cp = g) (edges k))) ks)"
  by (simp add: filter_concat filter_map comp_def map_concat)

lemma replace_children_of:
  assumes "g \<notin> set (nodes t)"
    "\<And>k. k \<in> set (subtrees T) \<Longrightarrow> root k = w \<Longrightarrow> g \<notin> set (nodes k)"
  shows "map fst (filter (\<lambda>cp. snd cp = g)
            (edges (map_kids g (map (\<lambda>k. if root k = w then t else k)) T)))
           = map (\<lambda>c. if c = w then root t else c)
               (map fst (filter (\<lambda>cp. snd cp = g) (edges T)))"
  using assms(2)
proof (induction T)
  case (Tree r ts)
  let ?rec = "map_kids g (map (\<lambda>k. if root k = w then t else k))"
  let ?h = "\<lambda>k. map fst (filter (\<lambda>cp. snd cp = g) (edges k))"
  let ?sub = "\<lambda>c. if c = w then root t else c"
  let ?h' = "\<lambda>k. map ?sub (?h k)"
  have sub: "k' \<in> set (subtrees (Tree r ts))" if "k \<in> set ts" "k' \<in> set (subtrees k)" for k k'
    using that by auto
  have ih: "?h (?rec k) = ?h' k" if "k \<in> set ts" for k
    using Tree.IH[OF that] Tree.prems sub[OF that] by blast
  have rm: "?h k = []" if "k \<in> set ts" "root k = w" for k
    using Tree.prems[OF sub[OF that(1) self_subtree] that(2)] by (simp add: no_edges_to)
  have t0: "?h t = []" using assms(1) by (simp add: no_edges_to)
  have deep: "concat (map ?h (map (\<lambda>k. if root k = w then t else ?rec k) ts)) = concat (map ?h' ts)"
    by (rule concat_replace_kids) (simp_all add: ih rm t0)
  have deep': "concat (map ?h (map ?rec ts)) = concat (map ?h' ts)"
    using ih by (intro arg_cong[where f=concat]) simp
  have repl: "map (\<lambda>k. if root k = w then t else k) (map ?rec ts)
                = map (\<lambda>k. if root k = w then t else ?rec k) ts" by simp
  have new: "?rec (Tree r ts)
               = Tree r (if r = g then map (\<lambda>k. if root k = w then t else ?rec k) ts
                         else map ?rec ts)"
    by (simp add: repl)
  show ?case
  proof (cases "r = g")
    case True
    have "map root (map (\<lambda>k. if root k = w then t else ?rec k) ts) = map ?sub (map root ts)"
      by simp
    then show ?thesis
      unfolding new children_of_Tree using True deep by (simp add: map_concat comp_def)
  next
    case False
    then show ?thesis
      unfolding new children_of_Tree using deep' by (simp add: map_concat comp_def)
  qed
qed

lemma in_tl: "x \<in> set (tl xs) \<Longrightarrow> x \<in> set xs"
  by (cases xs) auto

lemma child_in_nodes: "(c, p) \<in> set (edges t) \<Longrightarrow> c \<in> set (nodes t)"
  using edges_in_nodes[of c p t] by (auto intro: in_tl)

lemma filter_kids_nodes: "set (nodes (map_kids p (filter P) T)) \<subseteq> set (nodes T)"
proof (induction T)
  case (Tree r ts)
  let ?ks = "(if r = p then filter P else id) (map (map_kids p (filter P)) ts)"
  have 1: "set (concat (map nodes ?ks)) \<subseteq> set (concat (map nodes ts))"
    using Tree.IH by (cases "r = p") auto
  have n: "set (nodes (map_kids p (filter P) (Tree r ts))) = insert r (set (concat (map nodes ?ks)))"
    by simp
  have m: "set (nodes (Tree r ts)) = insert r (set (concat (map nodes ts)))" by simp
  show ?case unfolding n m using 1 by blast
qed

lemma filter_kids_edges: "set (edges (map_kids p (filter P) T)) \<subseteq> set (edges T)"
proof (induction T)
  case (Tree r ts)
  let ?ks = "(if r = p then filter P else id) (map (map_kids p (filter P)) ts)"
  have 1: "set (concat (map edges ?ks)) \<subseteq> set (concat (map edges ts))"
    using Tree.IH by (cases "r = p") auto
  have 2: "root ` set ?ks \<subseteq> root ` set ts" by (cases "r = p") auto
  have "edges (map_kids p (filter P) (Tree r ts)) = map (\<lambda>t. (root t, r)) ?ks @ concat (map edges ?ks)"
    by simp
  then have "set (edges (map_kids p (filter P) (Tree r ts)))
               = (\<lambda>c. (c, r)) ` root ` set ?ks \<union> set (concat (map edges ?ks))"
    by (simp add: image_image)
  also have "\<dots> \<subseteq> (\<lambda>c. (c, r)) ` root ` set ts \<union> set (concat (map edges ts))"
    using 1 2 by blast
  also have "\<dots> = set (edges (Tree r ts))" by (simp add: image_image)
  finally show ?case .
qed

lemma filter_kids_subtrees:
  "k' \<in> set (subtrees (map_kids p (filter P) T)) \<Longrightarrow>
   \<exists>k\<in>set (subtrees T). root k = root k' \<and> set (nodes k') \<subseteq> set (nodes k)"
proof (induction T)
  case (Tree r ts)
  let ?ks = "(if r = p then filter P else id) (map (map_kids p (filter P)) ts)"
  show ?case
  proof (cases "k' = map_kids p (filter P) (Tree r ts)")
    case True
    then show ?thesis
      using filter_kids_nodes[of p P "Tree r ts"]
      by (intro bexI[where x="Tree r ts"]) simp_all
  next
    case False
    with Tree.prems obtain k0 where "k0 \<in> set ?ks" "k' \<in> set (subtrees k0)" by auto
    then obtain k where k: "k \<in> set ts" "k' \<in> set (subtrees (map_kids p (filter P) k))"
      by (cases "r = p") auto
    from Tree.IH[OF this] obtain k1 where "k1 \<in> set (subtrees k)" "root k1 = root k'"
      "set (nodes k') \<subseteq> set (nodes k1)" by blast
    with k(1) show ?thesis by (intro bexI[where x=k1]) auto
  qed
qed

lemma replace_drops_child:
  assumes "w \<notin> set (nodes t)"
    "\<And>q. (w, q) \<in> set (edges T) \<Longrightarrow> q = g"
  shows "w \<notin> fst ` set (edges (map_kids g (map (\<lambda>k. if root k = w then t else k)) T))"
  using assms(2)
proof (induction T)
  case (Tree r ts)
  let ?rec = "map_kids g (map (\<lambda>k. if root k = w then t else k))"
  let ?ks = "if r = g then map (\<lambda>k. if root k = w then t else ?rec k) ts else map ?rec ts"
  have new: "?rec (Tree r ts) = Tree r ?ks" by simp
  have rt: "root t \<noteq> w" using assms(1) root_in_nodes[of t] by auto
  have top: "w \<notin> root ` set ?ks"
  proof (cases "r = g")
    case True
    have "root k' \<noteq> w" if "k' \<in> set ?ks" for k'
    proof -
      from that True obtain k where "k \<in> set ts" "k' = (if root k = w then t else ?rec k)"
        by auto
      then show ?thesis using rt by (cases "root k = w") simp_all
    qed
    then show ?thesis by blast
  next
    case False
    have "w \<notin> root ` set ts"
    proof
      assume "w \<in> root ` set ts"
      then have "(w, r) \<in> set (edges (Tree r ts))" by auto
      from Tree.prems[OF this] False show False by simp
    qed
    moreover have "root ` set (map ?rec ts) = root ` set ts" by (simp add: image_image)
    ultimately show ?thesis using False by simp
  qed
  have kid: "w \<notin> fst ` set (edges (?rec k))" if "k \<in> set ts" for k
  proof (rule Tree.IH[OF that])
    fix q assume "(w, q) \<in> set (edges k)"
    with that have "(w, q) \<in> set (edges (Tree r ts))" by auto
    then show "q = g" by (rule Tree.prems)
  qed
  have tt: "w \<notin> fst ` set (edges t)"
    using assms(1) by (auto dest: child_in_nodes)
  have each: "w \<notin> fst ` set (edges k')" if "k' \<in> set ?ks" for k'
  proof -
    from that obtain k where k: "k \<in> set ts" "k' = t \<or> k' = ?rec k"
      by (cases "r = g") auto
    then show ?thesis using kid[OF k(1)] tt by blast
  qed
  have deep: "w \<notin> fst ` set (concat (map edges ?ks))"
    using each by (simp only: set_concat set_map) blast
  show ?case unfolding new using top deep by (auto simp add: image_Un image_image)
qed

lemma nodes_roots: "nodes t = map root (subtrees t)"
proof (induction t)
  case (Tree r ts)
  have eq: "map nodes ts = map (\<lambda>t. map root (subtrees t)) ts"
    using Tree.IH by (intro map_cong) simp_all
  have "nodes (Tree r ts) = r # concat (map nodes ts)" by simp
  also have "\<dots> = r # concat (map (\<lambda>t. map root (subtrees t)) ts)" by (simp only: eq)
  also have "\<dots> = map root (subtrees (Tree r ts))" by (simp add: map_concat comp_def)
  finally show ?case .
qed

lemma distinct_concat_kids:
  "distinct (concat (map f ts)) \<Longrightarrow> k1 \<in> set ts \<Longrightarrow> k2 \<in> set ts
   \<Longrightarrow> x \<in> set (f k1) \<Longrightarrow> x \<in> set (f k2) \<Longrightarrow> k1 = k2"
  by (induction ts) auto

lemma distinct_concat_kid:
  "distinct (concat (map f ts)) \<Longrightarrow> k \<in> set ts \<Longrightarrow> distinct (f k)"
  by (induction ts) auto

lemma root_not_below: "distinct (nodes k) \<Longrightarrow> root k \<notin> set (tl (nodes k))"
  by (cases k) simp

lemma subtree_unique:
  "distinct (nodes T) \<Longrightarrow> k1 \<in> set (subtrees T) \<Longrightarrow> k2 \<in> set (subtrees T)
   \<Longrightarrow> root k1 = root k2 \<Longrightarrow> k1 = k2"
  unfolding nodes_roots distinct_map by (auto dest: inj_onD)

lemma kid_of_edge:
  assumes "distinct (nodes T)" "(c, p) \<in> set (edges T)"
    "kc \<in> set (subtrees T)" "root kc = c" "kp \<in> set (subtrees T)" "root kp = p"
  shows "kc \<in> set (subs kp)"
proof -
  from edge_subtree[OF assms(2)] obtain k where k: "k \<in> set (subtrees T)" "root k = p"
    "c \<in> root ` set (subs k)" by blast
  then obtain k' where k': "k' \<in> set (subs k)" "root k' = c" by auto
  have "k = kp" using subtree_unique[OF assms(1) k(1) assms(5)] k(2) assms(6) by simp
  moreover have "k' = kc"
    using subtree_unique[OF assms(1) kid_subtree[OF k(1) k'(1)] assms(3)] k'(2) assms(4) by simp
  ultimately show ?thesis using k'(1) by simp
qed

lemma parent_unique:
  "distinct (nodes T) \<Longrightarrow> (c, p) \<in> set (edges T) \<Longrightarrow> (c, q) \<in> set (edges T) \<Longrightarrow> p = q"
proof (induction T)
  case (Tree r ts)
  from Tree.prems(1) have dc: "distinct (concat (map nodes ts))" by simp
  have split: "(p' = r \<and> (\<exists>k\<in>set ts. c = root k)) \<or> (\<exists>k\<in>set ts. (c, p') \<in> set (edges k))"
    if "(c, p') \<in> set (edges (Tree r ts))" for p'
    using that by auto
  have clash: False if "k \<in> set ts" "c = root k" "k2 \<in> set ts" "(c, q') \<in> set (edges k2)"
    for k k2 q'
  proof -
    from that(4) have c2: "c \<in> set (tl (nodes k2))" using edges_in_nodes by blast
    then have "c \<in> set (nodes k2)" by (rule in_tl)
    moreover have "c \<in> set (nodes k)" using that(2) by simp
    ultimately have "k = k2" using distinct_concat_kids[OF dc that(1,3)] by blast
    moreover have "distinct (nodes k)" using distinct_concat_kid[OF dc that(1)] .
    ultimately show False using root_not_below[of k] c2 that(2) by simp
  qed
  from split[OF Tree.prems(2)] split[OF Tree.prems(3)] show ?case
  proof (elim disjE conjE bexE)
    fix k k2 assume "p = r" "q = r"
    then show ?thesis by simp
  next
    fix k k2 assume "k \<in> set ts" "c = root k" "k2 \<in> set ts" "(c, q) \<in> set (edges k2)"
    then show ?thesis using clash by blast
  next
    fix k k2 assume "k \<in> set ts" "(c, p) \<in> set (edges k)" "k2 \<in> set ts" "c = root k2"
    then show ?thesis using clash by blast
  next
    fix k k2 assume a: "k \<in> set ts" "(c, p) \<in> set (edges k)" "k2 \<in> set ts" "(c, q) \<in> set (edges k2)"
    then have "c \<in> set (nodes k)" "c \<in> set (nodes k2)" by (auto dest: child_in_nodes)
    then have "k = k2" using distinct_concat_kids[OF dc a(1,3)] by blast
    with a Tree.IH[OF a(1) distinct_concat_kid[OF dc a(1)] a(2)] show ?thesis by simp
  qed
qed

lemma fresh_root: "\<exists>v::nat. v \<notin> set xs"
  using ex_new_if_finite[OF infinite_UNIV_nat finite_set] by blast

lemma forest_subtree_unique:
  assumes "distinct (concat (map nodes F))" "k1 \<in> set (concat (map subtrees F))"
    "k2 \<in> set (concat (map subtrees F))" "root k1 = root k2"
  shows "k1 = k2"
proof -
  obtain v where v: "v \<notin> set (concat (map nodes F))" using fresh_root by blast
  have "distinct (nodes (Tree v F))" using assms(1) v by simp
  moreover have "k1 \<in> set (subtrees (Tree v F))" "k2 \<in> set (subtrees (Tree v F))"
    using assms(2,3) by simp_all
  ultimately show ?thesis using subtree_unique assms(4) by blast
qed

lemma forest_parent_unique:
  assumes "distinct (concat (map nodes F))" "(c, p) \<in> set (concat (map edges F))"
    "(c, q) \<in> set (concat (map edges F))"
  shows "p = q"
proof -
  obtain v where v: "v \<notin> set (concat (map nodes F))" using fresh_root by blast
  have "distinct (nodes (Tree v F))" using assms(1) v by simp
  moreover have "(c, p) \<in> set (edges (Tree v F))" "(c, q) \<in> set (edges (Tree v F))"
    using assms(2,3) by simp_all
  ultimately show ?thesis using parent_unique by blast
qed

lemma forest_kid_of_edge:
  assumes "distinct (concat (map nodes F))" "(c, p) \<in> set (concat (map edges F))"
    "kc \<in> set (concat (map subtrees F))" "root kc = c"
    "kp \<in> set (concat (map subtrees F))" "root kp = p"
  shows "kc \<in> set (subs kp)"
proof -
  obtain v where v: "v \<notin> set (concat (map nodes F))" using fresh_root by blast
  have "distinct (nodes (Tree v F))" using assms(1) v by simp
  moreover have "(c, p) \<in> set (edges (Tree v F))" using assms(2) by simp
  moreover have "kc \<in> set (subtrees (Tree v F))" "kp \<in> set (subtrees (Tree v F))"
    using assms(3,5) by simp_all
  ultimately show ?thesis using kid_of_edge assms(4,6) by blast
qed

lemma forest_subtree_distinct:
  assumes "distinct (concat (map nodes F))" "k \<in> set (concat (map subtrees F))"
  shows "distinct (nodes k)"
proof -
  from assms(2) obtain T where T: "T \<in> set F" "k \<in> set (subtrees T)" by auto
  show ?thesis using subtree_distinct[OF T(2)] distinct_concat_kid[OF assms(1) T(1)] by simp
qed

lemma forest_nodes_roots: "concat (map nodes F) = map root (concat (map subtrees F))"
  by (induction F) (simp_all add: nodes_roots)

lemma forest_find:
  assumes "x \<in> set (concat (map nodes F))"
  shows "\<exists>k. find (\<lambda>t. root t = x) (concat (map subtrees F)) = Some k \<and> root k = x
            \<and> k \<in> set (concat (map subtrees F))"
proof (cases "find (\<lambda>t. root t = x) (concat (map subtrees F))")
  case None
  then have "\<forall>k\<in>set (concat (map subtrees F)). root k \<noteq> x"
    unfolding find_None_iff by blast
  then have "x \<notin> set (map root (concat (map subtrees F)))" by auto
  with assms show ?thesis by (simp only: forest_nodes_roots)
next
  case (Some k)
  then show ?thesis by (auto simp: find_Some_iff in_set_conv_nth simp del: set_concat)
qed

lemma forest_updTrees [simp]: "forest (updTrees f s) = map f (forest s)"
  by (simp add: forest_def updTrees_def)

lemma kids_of_concat:
  "map fst (filter P (concat (map edges F)))
     = concat (map (\<lambda>T. map fst (filter P (edges T))) F)"
  by (induction F) simp_all

lemma replaceChild_position:
  assumes D: "distinct (allNodes s)"
    and pe: "parentNode s e = Some w" and pw: "parentNode s w = Some g"
  shows "\<exists>s'. replaceChild g e w s = (Inr (), s')
            \<and> store s' = store s
            \<and> childIds s' g = map (\<lambda>k. if k = w then e else k) (childIds s g)
            \<and> parentNode s' w = None
            \<and> w \<notin> set (docElements s')
            \<and> (w \<in> set (docElements s) \<longrightarrow> e \<in> set (docElements s'))"
proof -
  let ?F = "forest s"
  let ?E = "concat (map edges ?F)"
  let ?S = "concat (map subtrees ?F)"
  let ?G = "\<lambda>cp::ident \<times> ident. snd cp = g"
  have DF: "distinct (concat (map nodes ?F))" using D by (simp add: allNodes_def)
  have ew: "(e, w) \<in> set ?E" using pe unfolding parentNode_def by (rule map_of_SomeD)
  have wg: "(w, g) \<in> set ?E" using pw unfolding parentNode_def by (rule map_of_SomeD)
  have in_nodes: "c \<in> set (concat (map nodes ?F)) \<and> p \<in> set (concat (map nodes ?F))"
    if "(c, p) \<in> set ?E" for c p
  proof -
    from that obtain T where T: "T \<in> set ?F" "(c, p) \<in> set (edges T)" by auto
    then have "c \<in> set (nodes T)" "p \<in> set (nodes T)"
      using child_in_nodes edges_in_nodes by blast+
    with T(1) show ?thesis by auto
  qed
  obtain t where t: "subtreeOf s e = Some t" "root t = e" "t \<in> set ?S"
    using forest_find[of e ?F] in_nodes[OF ew] unfolding subtreeOf_def by blast
  obtain kw where kw: "root kw = w" "kw \<in> set ?S"
    using forest_find[of w ?F] in_nodes[OF wg] by blast
  obtain kg where kg: "root kg = g" "kg \<in> set ?S"
    using forest_find[of g ?F] in_nodes[OF wg] by blast
  have t_kw: "t \<in> set (subs kw)" using forest_kid_of_edge[OF DF ew t(3) t(2) kw(2) kw(1)] .
  have kw_kg: "kw \<in> set (subs kg)" using forest_kid_of_edge[OF DF wg kw(2) kw(1) kg(2) kg(1)] .
  have dkw: "distinct (nodes kw)" using forest_subtree_distinct[OF DF kw(2)] .
  have dkg: "distinct (nodes kg)" using forest_subtree_distinct[OF DF kg(2)] .
  have t_sub: "set (nodes t) \<subseteq> set (nodes kw)" and w_t: "w \<notin> set (nodes t)"
    using kid_below[OF t_kw dkw] kw(1) by simp_all
  have g_kw: "g \<notin> set (nodes kw)" using kid_below[OF kw_kg dkg] kg(1) by simp
  have g_t: "g \<notin> set (nodes t)" using g_kw t_sub by blast
  have gw: "g \<noteq> w" using g_kw kw(1) root_in_nodes[of kw] by auto
  have only_t: "k = t" if "k \<in> set ?S" "root k = e" for k
    using forest_subtree_unique[OF DF that(1) t(3)] that(2) t(2) by simp
  have only_kw: "k = kw" if "k \<in> set ?S" "root k = w" for k
    using forest_subtree_unique[OF DF that(1) kw(2)] that(2) kw(1) by simp
  have only_g: "q = g" if "(w, q) \<in> set ?E" for q
    using forest_parent_unique[OF DF that wg] .

  define f1 where "f1 = map_kids w (filter (\<lambda>k. root k \<noteq> e))"
  define f2 where "f2 = map_kids g (map (\<lambda>k. if root k = w then t else k))"
  define s1 where "s1 = unlink e s"
  define s2 where "s2 = updTrees f2 s1"
  have s1: "s1 = updTrees f1 s" by (simp add: s1_def unlink_def pe f1_def)
  have F1: "forest s1 = map f1 ?F" by (simp add: s1)
  have F2: "forest s2 = map f2 (map f1 ?F)" by (simp add: s2_def F1)

  have keep: "filter ?G (edges (f1 T)) = filter ?G (edges T)" if "T \<in> set ?F" for T
    unfolding f1_def
  proof (rule unlink_keeps_children_of[OF gw])
    fix k assume k: "k \<in> set (subtrees T)" "root k = e"
    then have "k \<in> set ?S" using that by auto
    then show "g \<notin> set (nodes k)" using only_t k(2) g_t by blast
  qed
  have below1: "g \<notin> set (nodes k')" if "T \<in> set ?F" "k' \<in> set (subtrees (f1 T))" "root k' = w"
    for T k'
  proof -
    from filter_kids_subtrees[OF that(2)[unfolded f1_def]]
    obtain k where k: "k \<in> set (subtrees T)" "root k = root k'" "set (nodes k') \<subseteq> set (nodes k)"
      by blast
    then have "k \<in> set ?S" using that(1) by auto
    then have "k = kw" using only_kw k(2) that(3) by simp
    then show ?thesis using g_kw k(3) by blast
  qed
  have edges1: "set (edges (f1 T)) \<subseteq> set ?E" if "T \<in> set ?F" for T
    using filter_kids_edges[of w _ T] that unfolding f1_def by auto
  have kids2: "map fst (filter ?G (edges (f2 (f1 T))))
                 = map (\<lambda>c. if c = w then e else c) (map fst (filter ?G (edges T)))"
    if "T \<in> set ?F" for T
  proof -
    have "map fst (filter ?G (edges (f2 (f1 T))))
            = map (\<lambda>c. if c = w then root t else c) (map fst (filter ?G (edges (f1 T))))"
      unfolding f2_def by (rule replace_children_of[OF g_t]) (rule below1[OF that])
    then show ?thesis by (simp only: keep[OF that] t(2))
  qed
  have drop2: "w \<notin> fst ` set (edges (f2 (f1 T)))" if "T \<in> set ?F" for T
    unfolding f2_def
  proof (rule replace_drops_child[OF w_t])
    fix q assume "(w, q) \<in> set (edges (f1 T))"
    then show "q = g" using edges1[OF that] only_g by blast
  qed

  have wg1: "(w, g) \<in> set (concat (map edges (forest s1)))"
  proof -
    from wg obtain T where T: "T \<in> set ?F" "(w, g) \<in> set (edges T)" by auto
    then have "(w, g) \<in> set (filter ?G (edges T))" by simp
    then have "(w, g) \<in> set (edges (f1 T))" unfolding keep[OF T(1), symmetric] by simp
    with T(1) show ?thesis unfolding F1 by auto
  qed
  have w1: "w \<in> set (concat (map nodes (forest s1)))"
  proof -
    from wg1 obtain T where T: "T \<in> set (forest s1)" "(w, g) \<in> set (edges T)" by auto
    then have "w \<in> set (nodes T)" using child_in_nodes by blast
    with T(1) show ?thesis by auto
  qed
  obtain ot where ot: "subtreeOf s1 w = Some ot" "root ot = w"
    "ot \<in> set (concat (map subtrees (forest s1)))"
    using forest_find[OF w1] unfolding subtreeOf_def by blast
  from ot(3) obtain T0 where T0: "T0 \<in> set ?F" "ot \<in> set (subtrees (f1 T0))"
    unfolding F1 by auto
  have g_ot: "g \<notin> set (nodes ot)" using below1[OF T0 ot(2)] .
  have no_w_ot: "w \<notin> fst ` set (edges ot)"
  proof
    assume "w \<in> fst ` set (edges ot)"
    then obtain q where q: "(w, q) \<in> set (edges ot)" by force
    then have "(w, q) \<in> set (edges (f1 T0))" using subtree_edges[OF T0(2)] by blast
    then have "q = g" using edges1[OF T0(1)] only_g by blast
    with q have "g \<in> set (nodes ot)" using edges_in_nodes by blast
    with g_ot show False by simp
  qed

  define s' where "s' = s2\<lparr>detached := detached s2 @ [ot]\<rparr>"
  have rc: "replaceChild g e w s = (Inr (), s')"
    by (simp add: replaceChild_def t(1) pw g_t Let_def s1_def[symmetric] ot(1)
        s2_def[symmetric] f2_def[symmetric] s'_def)
  have F': "forest s' = forest s2 @ [ot]" by (simp add: s'_def forest_def)
  have st: "store s' = store s" by (simp add: s'_def s2_def s1)
  have kids: "childIds s' g = map (\<lambda>k. if k = w then e else k) (childIds s g)"
  proof -
    have "childIds s' g = concat (map (\<lambda>T. map fst (filter ?G (edges T))) (forest s2))
                            @ map fst (filter ?G (edges ot))"
      unfolding childIds_def F' kids_of_concat by simp
    also have "map fst (filter ?G (edges ot)) = []" using no_edges_to[OF g_ot] by simp
    also have "concat (map (\<lambda>T. map fst (filter ?G (edges T))) (forest s2))
        = concat (map (\<lambda>T. map (\<lambda>c. if c = w then e else c) (map fst (filter ?G (edges T)))) ?F)"
    proof -
      have "map (\<lambda>T. map fst (filter ?G (edges T))) (forest s2)
            = map (\<lambda>T. map (\<lambda>c. if c = w then e else c) (map fst (filter ?G (edges T)))) ?F"
        unfolding F2 map_map by (rule map_cong[OF refl]) (simp add: kids2)
      then show ?thesis by (simp only:)
    qed
    also have "\<dots> = map (\<lambda>c. if c = w then e else c) (childIds s g)"
      unfolding childIds_def kids_of_concat by (simp add: map_concat comp_def)
    finally show ?thesis by simp
  qed
  have no_w: "w \<notin> fst ` set (concat (map edges (forest s')))"
    unfolding F' F2 using drop2 no_w_ot by auto
  have pn: "parentNode s' w = None"
    unfolding parentNode_def using no_w by (simp add: map_of_eq_None_iff)
  have doc': "document s' = f2 (f1 (document s))"
    by (simp add: s'_def s2_def s1 updTrees_def)
  have docF: "document s \<in> set ?F" by (simp add: forest_def)
  have gone: "w \<notin> set (docElements s')"
  proof
    assume "w \<in> set (docElements s')"
    then obtain p where "(w, p) \<in> set (edges (f2 (f1 (document s))))"
      unfolding docElements_def doc' using nodes_have_edges by blast
    then show False using drop2[OF docF] by force
  qed
  have there: "e \<in> set (docElements s')" if "w \<in> set (docElements s)"
  proof -
    from that obtain p where p: "(w, p) \<in> set (edges (document s))"
      unfolding docElements_def using nodes_have_edges by blast
    then have "(w, p) \<in> set ?E" using docF by auto
    then have "p = g" by (rule only_g)
    with p have "w \<in> set (map fst (filter ?G (edges (document s))))" by force
    then have "e \<in> set (map fst (filter ?G (edges (f2 (f1 (document s))))))"
      unfolding kids2[OF docF] by force
    then obtain q where "(e, q) \<in> set (edges (document s'))" unfolding doc' by auto
    then show ?thesis unfolding docElements_def using edges_in_nodes by blast
  qed
  show ?thesis using rc st kids pn gone there by blast
qed

lemma reblocked_listed: "6 \<in> set (querySelectorAll selBlockedIframe reblockedDoc)"
  by code_simp

lemma reblocked_blocked: "blockedWith ''https://b.example/y'' (store reblockedDoc 6)"
  by code_simp

lemma reblocked_src:
  "srcProp (store (unblockPreviouslyBlockedContent [] reblockedDoc) 6) = ''https://a.example/x''"
  by code_simp

lemma reblocked_document:
  "document (unblockPreviouslyBlockedContent [] reblockedDoc) = Tree 0 [Tree 2 [Tree 3 [Tree 6 []]]]"
  by code_simp

lemma blockedDoc_listed: "5 \<in> set (querySelectorAll selBlockedIframe blockedDoc)"
  by code_simp

lemma blockedDoc_distinct: "distinct (allNodes blockedDoc)"
  by code_simp

lemma blockedDoc_parents:
  "parentElement blockedDoc 5 = Some 4" "parentElement blockedDoc 4 = Some 3"
  by code_simp+

lemma blockedDoc_recorded:
  "getAttribute ''data-original-src'' (store blockedDoc 5) = Some ''https://a.example/x''"
  by code_simp

lemma blockedDoc_kids: "childIds blockedDoc 3 = [4]" "4 \<in> set (docElements blockedDoc)"
  by code_simp+

lemma parentElement_parentNode: "parentElement s i = Some p \<Longrightarrow> parentNode s i = Some p"
  by (simp add: parentElement_def split: option.splits if_splits)

lemma wrapper_in_document:
  assumes D: "distinct (allNodes s)" and e: "e \<in> set (docElements s)"
    and pe: "parentNode s e = Some w" and pw: "parentNode s w = Some g"
  shows "w \<in> set (docElements s)"
proof -
  let ?F = "forest s"
  have DF: "distinct (concat (map nodes ?F))" using D by (simp add: allNodes_def)
  have docF: "document s \<in> set ?F" by (simp add: forest_def)
  have ew: "(e, w) \<in> set (concat (map edges ?F))"
    using pe unfolding parentNode_def by (rule map_of_SomeD)
  have wg: "(w, g) \<in> set (concat (map edges ?F))"
    using pw unfolding parentNode_def by (rule map_of_SomeD)
  from e obtain p where p: "(e, p) \<in> set (edges (document s))"
    unfolding docElements_def using nodes_have_edges by blast
  then have "(e, p) \<in> set (concat (map edges ?F))" using docF by auto
  then have "p = w" using forest_parent_unique[OF DF _ ew] by blast
  with p have wd: "w \<in> set (nodes (document s))" using edges_in_nodes by blast
  from wg obtain T where T: "T \<in> set ?F" "(w, g) \<in> set (edges T)" by auto
  then have wT: "w \<in> set (tl (nodes T))" using edges_in_nodes by blast
  then have "w \<in> set (nodes T)" by (rule in_tl)
  then have "document s = T" using distinct_concat_kids[OF DF docF T(1) wd] by blast
  with wT show ?thesis by (simp add: docElements_def)
qed

lemma update_commute_present:
  "k' \<in> fst ` set al \<Longrightarrow> k \<noteq> k' \<Longrightarrow>
   AList.update k' v' (AList.update k v al) = AList.update k v (AList.update k' v' al)"
  by (induction al) auto

lemma fold_update_keys:
  "fst ` set (fold (\<lambda>d. AList.update (fst d) (snd d)) ws al) = fst ` set ws \<union> fst ` set al"
  by (induction ws arbitrary: al) (auto simp: dom_update)

lemma update_absorbs_earlier:
  "fst ` set ws \<subseteq> fst ` set al \<Longrightarrow>
   AList.update k v (fold (\<lambda>d. AList.update (fst d) (snd d)) ws (AList.update k v al))
     = AList.update k v (fold (\<lambda>d. AList.update (fst d) (snd d)) ws al)"
proof (induction ws arbitrary: al)
  case Nil
  then show ?case by simp
next
  case (Cons x ws)
  have keys: "fst ` set ws \<subseteq> fst ` set (AList.update (fst x) (snd x) al)"
    using Cons.prems by (auto simp: dom_update)
  show ?case
  proof (cases "fst x = k")
    case True
    then show ?thesis by simp
  next
    case False
    have "fst x \<in> fst ` set al" using Cons.prems by simp
    then have "AList.update (fst x) (snd x) (AList.update k v al)
                 = AList.update k v (AList.update (fst x) (snd x) al)"
      using False by (intro update_commute_present) auto
    then show ?thesis using Cons.IH[OF keys] by simp
  qed
qed

lemma fold_update_idem:
  "fold (\<lambda>d. AList.update (fst d) (snd d)) ws (fold (\<lambda>d. AList.update (fst d) (snd d)) ws al)
     = fold (\<lambda>d. AList.update (fst d) (snd d)) ws al"
proof (induction ws rule: rev_induct)
  case Nil
  then show ?case by simp
next
  case (snoc w ws)
  let ?U = "fold (\<lambda>d. AList.update (fst d) (snd d)) ws"
  have "fst ` set ws \<subseteq> fst ` set (?U al)" by (simp add: fold_update_keys)
  then have "AList.update (fst w) (snd w) (?U (AList.update (fst w) (snd w) (?U al)))
               = AList.update (fst w) (snd w) (?U (?U al))"
    by (rule update_absorbs_earlier)
  then show ?case using snoc.IH by simp
qed

lemma setStyles_updates:
  "\<forall>d\<in>set ds. snd d \<noteq> [] \<Longrightarrow>
   setStyles ds e = e\<lparr>style := fold (\<lambda>d. AList.update (fst d) (snd d)) ds (style e)\<rparr>"
  unfolding setStyles_def by (induction ds arbitrary: e) (simp_all add: setStyle_def)

lemma setStyles_idem:
  "\<forall>d\<in>set ds. snd d \<noteq> [] \<Longrightarrow> setStyles ds (setStyles ds e) = setStyles ds e"
  by (simp add: setStyles_updates fold_update_idem)

lemma setStyles_append: "setStyles (ds @ ds') e = setStyles ds' (setStyles ds e)"
  by (simp add: setStyles_def)

lemma resetSrc_setStyles:
  "\<forall>d\<in>set ds. snd d \<noteq> [] \<Longrightarrow> resetSrc (setStyles ds e) = setStyles ds (resetSrc e)"
  by (simp add: setStyles_updates resetSrc_def srcProp_def getAttribute_def hasAttribute_def
      setAttribute_def)

lemma resetSrc_idem: "resetSrc (resetSrc e) = resetSrc e"
  by (simp add: resetSrc_def srcProp_def getAttribute_def hasAttribute_def setAttribute_def
      update_conv')

lemma restyling_id: "restyling id"
  unfolding restyling_def by (intro exI[of _ "[]"] exI[of _ False]) (simp add: setStyles_def fun_eq_iff)

lemma restyling_setStyles: "\<forall>d\<in>set ds. snd d \<noteq> [] \<Longrightarrow> restyling (setStyles ds)"
  unfolding restyling_def by (intro exI[of _ ds] exI[of _ False]) (simp add: fun_eq_iff)

lemma restyling_reset:
  "\<forall>d\<in>set ds. snd d \<noteq> [] \<Longrightarrow> restyling (\<lambda>e. resetSrc (setStyles ds e))"
  unfolding restyling_def by (intro exI[of _ ds] exI[of _ True]) (simp add: fun_eq_iff)

lemma restyling_comp:
  assumes "restyling g" "restyling h"
  shows "restyling (h \<circ> g)"
proof -
  from assms(1) obtain ds b where g: "\<forall>d\<in>set ds. snd d \<noteq> []"
    "g = (\<lambda>e. (if b then resetSrc else id) (setStyles ds e))" unfolding restyling_def by blast
  from assms(2) obtain ds' b' where h: "\<forall>d\<in>set ds'. snd d \<noteq> []"
    "h = (\<lambda>e. (if b' then resetSrc else id) (setStyles ds' e))" unfolding restyling_def by blast
  have "h \<circ> g = (\<lambda>e. (if b \<or> b' then resetSrc else id) (setStyles (ds @ ds') e))"
    using g(1) h(1)
    by (auto simp add: g(2) h(2) fun_eq_iff setStyles_append resetSrc_setStyles resetSrc_idem)
  moreover have "\<forall>d\<in>set (ds @ ds'). snd d \<noteq> []" using g(1) h(1) by auto
  ultimately show ?thesis unfolding restyling_def by blast
qed

lemma restyling_idem: "restyling g \<Longrightarrow> g (g e) = g e"
  unfolding restyling_def
  by (auto simp add: resetSrc_setStyles resetSrc_idem setStyles_idem)

lemma restyling_keeps:
  assumes "restyling g"
  shows "tagName (g e) = tagName e" "textData (g e) = textData e"
    "k \<noteq> ''src'' \<Longrightarrow> getAttribute k (g e) = getAttribute k e"
proof -
  from assms obtain ds b where g: "\<forall>d\<in>set ds. snd d \<noteq> []"
    "g = (\<lambda>e. (if b then resetSrc else id) (setStyles ds e))" unfolding restyling_def by blast
  show "tagName (g e) = tagName e" "textData (g e) = textData e"
    by (simp_all add: g(2) setStyles_updates[OF g(1)] resetSrc_def setAttribute_def)
  show "getAttribute k (g e) = getAttribute k e" if "k \<noteq> ''src''"
    using that by (simp add: g(2) setStyles_updates[OF g(1)] resetSrc_def setAttribute_def
        getAttribute_def update_conv')
qed

lemma str_includes_mid: "str_includes (a @ y @ b) y"
proof (induction a)
  case Nil
  show ?case
  proof (cases "y @ b")
    case Nil
    then show ?thesis by simp
  next
    case (Cons c cs)
    have "take (length y) (y @ b) = y" by simp
    then show ?thesis unfolding append_Nil Cons by simp
  qed
next
  case (Cons c a)
  then show ?case by simp
qed

lemma str_includes_split: "str_includes x y \<Longrightarrow> \<exists>a b. x = a @ y @ b"
proof (induction x)
  case Nil
  then show ?case by simp
next
  case (Cons c cs)
  from Cons.prems have "take (length y) (c # cs) = y \<or> str_includes cs y" by simp
  then show ?case
  proof
    assume "take (length y) (c # cs) = y"
    then have "c # cs = [] @ y @ drop (length y) (c # cs)"
      by (metis append_Nil append_take_drop_id)
    then show ?thesis by blast
  next
    assume "str_includes cs y"
    then obtain a b where "cs = a @ y @ b" using Cons.IH by blast
    then have "c # cs = (c # a) @ y @ b" by simp
    then show ?thesis by blast
  qed
qed

lemma str_includes_within: "str_includes x y \<Longrightarrow> str_includes (a @ x @ b) y"
proof -
  assume "str_includes x y"
  then obtain a' b' where "x = a' @ y @ b'" using str_includes_split by blast
  then have "a @ x @ b = (a @ a') @ y @ (b' @ b)" by simp
  then show ?thesis using str_includes_mid by metis
qed

lemma escapeText_append: "escapeText (a @ b) = escapeText a @ escapeText b"
  by (simp add: escapeText_def)

lemma escapeText_words: "escapeText ''Content Blocked'' = ''Content Blocked''"
  by (simp add: escapeText_def)

lemma escapeText_keeps_words:
  "str_includes x ''Content Blocked'' \<Longrightarrow> str_includes (escapeText x) ''Content Blocked''"
proof -
  assume "str_includes x ''Content Blocked''"
  then obtain a b where "x = a @ ''Content Blocked'' @ b" using str_includes_split by blast
  then have "escapeText x = escapeText a @ ''Content Blocked'' @ escapeText b"
    by (simp only: escapeText_append escapeText_words)
  then show ?thesis using str_includes_mid by metis
qed

lemma serialize_has_text:
  "d \<in> set (nodes t) \<Longrightarrow> \<exists>a b. serialize st t = a @ escapeText (textData (st d)) @ b"
proof (induction t)
  case (Tree r ts)
  show ?case
  proof (cases "d = r")
    case True
    have "serialize st (Tree r ts) = openTag (st r) @ escapeText (textData (st d))
            @ (concat (map (serialize st) ts) @ ''</'' @ lowerCase (tagName (st r)) @ ''>'')"
      using True by simp
    then show ?thesis by blast
  next
    case False
    with Tree.prems obtain k where k: "k \<in> set ts" "d \<in> set (nodes k)" by auto
    from Tree.IH[OF k] obtain a b where ab: "serialize st k = a @ escapeText (textData (st d)) @ b"
      by blast
    from k(1) obtain pre post where ts: "ts = pre @ k # post" by (auto dest: split_list)
    have "serialize st (Tree r ts)
            = (openTag (st r) @ escapeText (textData (st r)) @ concat (map (serialize st) pre) @ a)
              @ escapeText (textData (st d))
              @ (b @ concat (map (serialize st) post) @ ''</'' @ lowerCase (tagName (st r)) @ ''>'')"
      by (simp add: ts ab)
    then show ?thesis by blast
  qed
qed

lemma tl_nodes: "tl (nodes t) = concat (map nodes (subs t))"
  by (cases t) simp

lemma innerHTML_has_text:
  assumes "d \<in> set (descendants s w)"
  shows "\<exists>a b. innerHTML s w = a @ escapeText (textData (store s d)) @ b"
proof -
  from assms obtain t where t: "subtreeOf s w = Some t" "d \<in> set (tl (nodes t))"
    by (cases "subtreeOf s w") (auto simp: descendants_def)
  then obtain k where k: "k \<in> set (subs t)" "d \<in> set (nodes k)" by (auto simp: tl_nodes)
  from serialize_has_text[OF k(2)] obtain a b
    where ab: "serialize (store s) k = a @ escapeText (textData (store s d)) @ b" by blast
  from k(1) obtain pre post where ts: "subs t = pre @ k # post" by (auto dest: split_list)
  have "innerHTML s w
          = (escapeText (textData (store s w)) @ concat (map (serialize (store s)) pre) @ a)
            @ escapeText (textData (store s d)) @ (b @ concat (map (serialize (store s)) post))"
    by (simp add: innerHTML_def childTrees_def t(1) ts ab)
  then show ?thesis by blast
qed

lemma showsContent_hasContent: "showsContent s w \<Longrightarrow> hasContent s w"
proof -
  assume "showsContent s w"
  then obtain d where d: "d \<in> set (descendants s w)"
    "hasClass ''cookie-consent-wrapper-content'' (store s d)
     \<or> str_includes (textData (store s d)) ''Content Blocked''"
    by (auto simp: showsContent_def list_ex_iff)
  from d(2) show ?thesis
  proof
    assume "hasClass ''cookie-consent-wrapper-content'' (store s d)"
    then have "querySelector (hasClass ''cookie-consent-wrapper-content'') s w \<noteq> None"
      using d(1) by (auto simp: querySelector_def find_None_iff)
    then show ?thesis by (simp add: hasContent_def)
  next
    assume "str_includes (textData (store s d)) ''Content Blocked''"
    then have e: "str_includes (escapeText (textData (store s d))) ''Content Blocked''"
      by (rule escapeText_keeps_words)
    from innerHTML_has_text[OF d(1)] obtain a b
      where "innerHTML s w = a @ escapeText (textData (store s d)) @ b" by blast
    then have "str_includes (innerHTML s w) ''Content Blocked''"
      using str_includes_within[OF e] by simp
    then show ?thesis by (simp add: hasContent_def)
  qed
qed

lemma alike_refl: "alike s s"
  by (simp add: alike_def)

lemma alike_restyled:
  assumes "alike s s'" "\<And>i. restyling (G i)"
  shows "alike s (s'\<lparr>store := \<lambda>i. G i (store s' i)\<rparr>)"
  using assms(1) by (simp add: alike_def restyling_keeps[OF assms(2)])

lemma alike_parentElement: "alike s s' \<Longrightarrow> parentElement s' i = parentElement s i"
  by (rule parentElement_forest) (simp_all add: alike_def)

lemma alike_descendants: "alike s s' \<Longrightarrow> descendants s' w = descendants s w"
  by (simp add: alike_def descendants_def subtreeOf_def)

lemma alike_iframe:
  "alike s s' \<Longrightarrow> querySelector (isTag ''IFRAME'') s' w = querySelector (isTag ''IFRAME'') s w"
  by (simp add: querySelector_def alike_descendants) (simp add: alike_def isTag_def)

lemma alike_showsContent: "alike s s' \<Longrightarrow> showsContent s' w = showsContent s w"
  by (simp add: showsContent_def alike_descendants) (simp add: alike_def hasClass_def)

lemma alike_placeholders:
  "alike s s' \<Longrightarrow> querySelectorAll selPlaceholder s' = querySelectorAll selPlaceholder s"
  by (simp add: querySelectorAll_def docElements_def selPlaceholder_def alike_def forest_def)

lemma reassertIframe_resets:
  "reassertIframe f s = modify f (\<lambda>e. resetSrc (positionIframeAbsolutely e)) s"
  by (simp add: reassertIframe_def Let_def resetSrc_def modify_def)

lemma modify_as_store: "modify x g s = s\<lparr>store := \<lambda>i. (if i = x then g else id) (store s i)\<rparr>"
  by (simp add: modify_def fun_eq_iff)

lemma ensureStep_restyles:
  assumes shown: "\<And>w. parentElement s p = Some w \<Longrightarrow> showsContent s w"
  shows "\<exists>G. (\<forall>i. restyling (G i))
           \<and> (\<forall>s'. alike s s' \<longrightarrow> ensureStep rnd p s' = s'\<lparr>store := \<lambda>i. G i (store s' i)\<rparr>)"
proof -
  let ?A = "setStyles placeholderStyles"
  let ?B = "applyWrapperStyles ''100%'' ''315px''"
  let ?C = "\<lambda>e. resetSrc (positionIframeAbsolutely e)"
  have rA: "restyling ?A" by (rule restyling_setStyles) (simp add: placeholderStyles_def)
  have rB: "restyling ?B"
    unfolding applyWrapperStyles_def by (rule restyling_setStyles) (simp add: wrapperStyles_def)
  have rC: "restyling ?C"
    unfolding positionIframeAbsolutely_def by (rule restyling_reset) (simp add: iframeStyles_def)
  have rif: "restyling (if c then g else id)" if "restyling g" for c g
    using that restyling_id by simp
  show ?thesis
  proof (cases "parentElement s p")
    case None
    let ?G = "\<lambda>i. if i = p then ?A else id"
    have st: "ensureStep rnd p s' = s'\<lparr>store := \<lambda>i. ?G i (store s' i)\<rparr>" if a: "alike s s'" for s'
    proof -
      let ?s1 = "modify p ?A s'"
      have "alike s ?s1" unfolding modify_as_store using a rif[OF rA] by (rule alike_restyled)
      then have "parentElement ?s1 p = None" using None by (simp add: alike_parentElement)
      then show ?thesis by (simp add: ensureStep_def Let_def modify_as_store)
    qed
    have rG: "\<forall>i. restyling (?G i)" using rif[OF rA] by simp
    show ?thesis by (rule exI[of _ ?G]) (use st rG in blast)
  next
    case (Some w)
    show ?thesis
    proof (cases "querySelector (isTag ''IFRAME'') s w")
      case None
      let ?G = "\<lambda>i. (if i = w then ?B else id) \<circ> (if i = p then ?A else id)"
      have st: "ensureStep rnd p s' = s'\<lparr>store := \<lambda>i. ?G i (store s' i)\<rparr>" if a: "alike s s'" for s'
      proof -
        let ?s1 = "modify p ?A s'"
        let ?s2 = "modify w ?B ?s1"
        have a1: "alike s ?s1" unfolding modify_as_store using a rif[OF rA] by (rule alike_restyled)
        have a2: "alike s ?s2"
          unfolding modify_as_store[of w] using a1 rif[OF rB] by (rule alike_restyled)
        have p1: "parentElement ?s1 p = Some w" using Some a1 by (simp add: alike_parentElement)
        have h: "hasContent ?s2 w"
          using shown[OF Some] a2 by (intro showsContent_hasContent) (simp add: alike_showsContent)
        have q: "querySelector (isTag ''IFRAME'') ?s2 w = None" using None a2 by (simp add: alike_iframe)
        have "ensureStep rnd p s' = ?s2" by (simp add: ensureStep_def Let_def p1 h q)
        then show ?thesis by (simp add: modify_as_store)
      qed
      have rG: "\<forall>i. restyling (?G i)" using rif[OF rA] rif[OF rB] by (simp add: restyling_comp)
      show ?thesis by (rule exI[of _ ?G]) (use st rG in blast)
    next
      case (Some f)
      let ?G = "\<lambda>i. (if i = f then ?C else id) \<circ> ((if i = w then ?B else id) \<circ> (if i = p then ?A else id))"
      have st: "ensureStep rnd p s' = s'\<lparr>store := \<lambda>i. ?G i (store s' i)\<rparr>" if a: "alike s s'" for s'
      proof -
        let ?s1 = "modify p ?A s'"
        let ?s2 = "modify w ?B ?s1"
        have a1: "alike s ?s1" unfolding modify_as_store using a rif[OF rA] by (rule alike_restyled)
        have a2: "alike s ?s2"
          unfolding modify_as_store[of w] using a1 rif[OF rB] by (rule alike_restyled)
        have p1: "parentElement ?s1 p = Some w"
          using \<open>parentElement s p = Some w\<close> a1 by (simp add: alike_parentElement)
        have h: "hasContent ?s2 w"
          using shown[OF \<open>parentElement s p = Some w\<close>] a2
          by (intro showsContent_hasContent) (simp add: alike_showsContent)
        have q: "querySelector (isTag ''IFRAME'') ?s2 w = Some f" using Some a2 by (simp add: alike_iframe)
        have "ensureStep rnd p s' = modify f ?C ?s2"
          by (simp add: ensureStep_def Let_def p1 h q reassertIframe_resets)
        then show ?thesis by (simp add: modify_as_store)
      qed
      have rG: "\<forall>i. restyling (?G i)"
        using rif[OF rA] rif[OF rB] rif[OF rC] by (simp add: restyling_comp)
      show ?thesis by (rule exI[of _ ?G]) (use st rG in blast)
    qed
  qed
qed

lemma ensure_fold_restyles:
  assumes "\<And>p w. p \<in> set ps \<Longrightarrow> parentElement s p = Some w \<Longrightarrow> showsContent s w"
  shows "\<exists>G. (\<forall>i. restyling (G i))
           \<and> (\<forall>s'. alike s s' \<longrightarrow>
                  fold (ensureStep rnd) ps s' = s'\<lparr>store := \<lambda>i. G i (store s' i)\<rparr>)"
  using assms
proof (induction ps)
  case Nil
  have "s'\<lparr>store := \<lambda>i. id (store s' i)\<rparr> = s'" for s' :: dom by simp
  then show ?case by (intro exI[of _ "\<lambda>i. id"] conjI allI impI restyling_id) simp
next
  case (Cons p ps)
  from ensureStep_restyles[of s p rnd] Cons.prems
  obtain G1 where G1: "\<And>i. restyling (G1 i)"
    "\<And>s'. alike s s' \<Longrightarrow> ensureStep rnd p s' = s'\<lparr>store := \<lambda>i. G1 i (store s' i)\<rparr>"
    by auto
  from Cons.IH Cons.prems
  obtain G2 where G2: "\<And>i. restyling (G2 i)"
    "\<And>s'. alike s s' \<Longrightarrow> fold (ensureStep rnd) ps s' = s'\<lparr>store := \<lambda>i. G2 i (store s' i)\<rparr>"
    by auto
  let ?G = "\<lambda>i. G2 i \<circ> G1 i"
  have rG: "\<forall>i. restyling (?G i)" using G1(1) G2(1) by (simp add: restyling_comp)
  have st: "fold (ensureStep rnd) (p # ps) s' = s'\<lparr>store := \<lambda>i. ?G i (store s' i)\<rparr>"
    if a: "alike s s'" for s'
  proof -
    let ?s1 = "s'\<lparr>store := \<lambda>i. G1 i (store s' i)\<rparr>"
    have a1: "alike s ?s1" using a G1(1) by (rule alike_restyled)
    show ?thesis by (simp add: G1(2)[OF a] G2(2)[OF a1])
  qed
  show ?case by (rule exI[of _ ?G]) (use st rG in blast)
qed

lemma shownDoc_shown: "contentShown shownDoc"
  by code_simp

lemma phrase_once:
  "document (ensurePlaceholdersVisible exampleRnd phraseInUrlDoc)
     = Tree 0 [Tree 2 [Tree 3 [Tree 4 [Tree 5 [], Tree 6 []]]]]"
  by code_simp

lemma phrase_twice:
  "document (ensurePlaceholdersVisible exampleRnd
       (ensurePlaceholdersVisible exampleRnd phraseInUrlDoc))
     = Tree 0 [Tree 2 [Tree 3 [Tree 4
         [Tree 7 [Tree 8 [], Tree 9 [], Tree 10 [], Tree 11 [], Tree 12 []], Tree 6 []]]]]"
  by code_simp

section \<open>The claims\<close>




text \<open>
  C7. With the enable flag off, \<open>blockTrackingScripts\<close> returns the state unchanged (no
  script removed, no iframe touched, no observer registered) together with an observer
  whose callback does nothing; what the platform delivers afterwards is what it would
  have delivered without the call.
\<close>

theorem disabled_flag_inert:
  "\<not> blockingEnabled s \<Longrightarrow>
     blockTrackingScripts rnd trackingKeywords s = (Inr NoopObserver, s)
     \<and> observerCallback rnd NoopObserver mutations s' = (Inr (), s')
     \<and> deliver rnd mutations (snd (blockTrackingScripts rnd trackingKeywords s))
         = deliver rnd mutations s"
  by (simp add: blockTrackingScripts_def)

theorem disabled_flag_inert_witness:
  "\<not> blockingEnabled (setBlockingEnabled False exampleDoc)
   \<and> blockTrackingScripts exampleRnd [''youtube.com''] (setBlockingEnabled False exampleDoc)
       = (Inr NoopObserver, setBlockingEnabled False exampleDoc)"
  using disabled_flag_inert[of "setBlockingEnabled False exampleDoc" exampleRnd "[''youtube.com'']"]
  by (simp add: setBlockingEnabled_def)






text \<open>
  C4, as amended. The callback has no \<open>try\<close>/\<open>catch\<close>: when an added node raises (which
  it does exactly for a tracked iframe without a parent element), the exception leaves
  the callback, and the nodes after it in the batch are not processed. The nodes before
  it stay processed, the faulty node changes nothing in the document, and the observer
  stays registered, so later batches are delivered to it.
\<close>

theorem callback_fault_ends_batch:
  assumes "forEachE (addedNode rnd kws) pre s = (Inr (), s1)"
    and "fst (addedNode rnd kws x s1) = Inl e"
  shows "observerCallback rnd (BlockingObserver kws) ((pre @ x # post) # later) s
           = (Inl NoParentError, s1\<lparr>draws := Suc (draws s1)\<rparr>)
         \<and> parentElement s1 x = None
         \<and> observers (deliver rnd mutations s) = observers s"
  using addedNode_fault[OF assms(2)] assms(1)
  by (simp add: forEachE_append deliver_observers)

theorem callback_fault_ends_batch_witness:
  "forEachE (addedNode exampleRnd [''youtube.com'']) [] strayIframeDoc = (Inr (), strayIframeDoc)
   \<and> fst (addedNode exampleRnd [''youtube.com''] 4 strayIframeDoc) = Inl NoParentError
   \<and> observerCallback exampleRnd (BlockingObserver [''youtube.com'']) [[4, 3]] strayIframeDoc
       = (Inl NoParentError, strayIframeDoc\<lparr>draws := Suc (draws strayIframeDoc)\<rparr>)"
  using callback_fault_ends_batch[of exampleRnd "[''youtube.com'']" "[]" strayIframeDoc
          strayIframeDoc 4 NoParentError "[3]" "[]"] stray_fault
  by simp

text \<open>
  C4 fails as stated: in a batch of a parentless tracked iframe followed by a tracked
  iframe of the document, the callback ends with the exception of the first and the
  second is left unblocked, although alone in a batch it is blocked.
\<close>

theorem fault_skips_sibling:
  "fst (observerCallback exampleRnd (BlockingObserver [''youtube.com'']) [[4, 3]] strayIframeDoc)
     = Inl NoParentError
   \<and> \<not> blockedWith ''https://youtube.com/embed/abc''
         (store (snd (observerCallback exampleRnd (BlockingObserver [''youtube.com''])
                        [[4, 3]] strayIframeDoc)) 3)
   \<and> blockedWith ''https://youtube.com/embed/abc''
         (store (snd (observerCallback exampleRnd (BlockingObserver [''youtube.com''])
                        [[3]] strayIframeDoc)) 3)"
proof -
  have a: "observerCallback exampleRnd (BlockingObserver [''youtube.com'']) [[4, 3]] strayIframeDoc
       = (Inl NoParentError, strayIframeDoc\<lparr>draws := Suc (draws strayIframeDoc)\<rparr>)"
    by (simp add: stray_fault)
  have b: "\<not> blockedWith ''https://youtube.com/embed/abc'' (store strayIframeDoc 3)"
    by (simp add: blockedWith_def strayIframeDoc_def srcProp_def getAttribute_def mkElem_def)
  from ccp_ok[OF stray_src3(4)] obtain s' where
    cc: "createContentPlaceholder exampleRnd 3 ''https://youtube.com/embed/abc'' strayIframeDoc
          = (Inr (nextId strayIframeDoc), s')" by blast
  have ga: "getAttribute ''src'' (store strayIframeDoc 3) = Some ''https://youtube.com/embed/abc''"
    by (simp add: strayIframeDoc_def getAttribute_def mkElem_def)
  have ok: "fst (addedNode exampleRnd [''youtube.com''] 3 strayIframeDoc) = Inr ()"
    using example_tracked cc
    by (simp add: addedNode_def addedIframe_def addedScript_iframe stray_src3 stray_src4 ga
          tracked_def discard_def)
  have c: "blockedWith ''https://youtube.com/embed/abc''
             (store (snd (addedNode exampleRnd [''youtube.com''] 3 strayIframeDoc)) 3)"
    using addedNode_blocks[OF stray_src4(3) stray_src3(3) stray_src3(1) example_tracked
            stray_src3(2) ok] .
  have d: "snd (observerCallback exampleRnd (BlockingObserver [''youtube.com'']) [[3]] strayIframeDoc)
            = snd (addedNode exampleRnd [''youtube.com''] 3 strayIframeDoc)"
    using ok by (cases "addedNode exampleRnd [''youtube.com''] 3 strayIframeDoc") auto
  show ?thesis using a b c d by simp
qed















end
